theory Spec2Isabelle
  imports Main "HOL-Library.AList" "HOL-Library.Sublist"
begin

section \<open>The market maker base class\<close>

text \<open>
  A shallow embedding of \<^verbatim>\<open>BaseMarketMaker\<close> (src/base_market_maker.py). The class
  implements \<^verbatim>\<open>__init__\<close>, \<^verbatim>\<open>run\<close>, \<^verbatim>\<open>refresh_all_orders\<close> and \<^verbatim>\<open>send_all_orders\<close>;
  every other method is a stub that a child class must complete. The implemented methods
  are translated line by line; the stubs are parameters of the model.
\<close>

subsection \<open>Data\<close>

text \<open>
  A Python dictionary is an association list in insertion order: \<^verbatim>\<open>d[k]\<close> is
  \<open>map_of d k\<close> (a missing key raises \<^verbatim>\<open>KeyError\<close>), \<^verbatim>\<open>d[k] = v\<close> is
  \<open>AList.update k v d\<close> (it replaces the binding of \<open>k\<close>, or appends one), and
  \<^verbatim>\<open>len(d)\<close> is \<open>length d\<close>. The keys of a dictionary are pairwise distinct.
\<close>

type_synonym 'v dict = "(int \<times> 'v) list"

definition keys :: "'v dict \<Rightarrow> int set" where
  "keys d = fst ` set d"


text \<open>
  The attributes an instance holds itself. \<open>'k\<close> is the type of one order level (the
  keyword arguments handed to \<^verbatim>\<open>send_limit_order\<close>), \<open>'w\<close> is whatever a child class
  adds, the market making exchange included. The attribute \<^verbatim>\<open>symbol\<close> is read by
  \<^verbatim>\<open>refresh_all_orders\<close> (line 222) although \<^verbatim>\<open>__init__\<close> never assigns it: \<open>None\<close> is
  an instance that holds no such attribute.
\<close>

record ('k, 'w) mm =
  base :: string
  quote :: string
  mm_symbol :: string
  ask_levels :: "'k dict"
  bid_levels :: "'k dict"
  active_asks :: "string dict"
  active_bids :: "string dict"
  symbol :: "string option"
  extra :: 'w

datatype exn =
  AttributeError string
  | KeyError int
  | TypeError string
  | Exception string

datatype 'a outcome = Returns 'a | Raises exn

subsection \<open>Method calls\<close>

text \<open>
  Every method call that the implemented methods make is recorded, in program order, as an
  event. A submission carries the dictionary and the index its level was read from.
\<close>

datatype side = Ask | Bid

datatype event =
  CheckOrderFills
  | DeleteAllOrders string bool int
  | OrderRefreshNeeded
  | ProcessOrderFill
  | RefreshAllOrders
  | RefreshIndividualOrders
  | SendAllOrders
  | SendLimitOrder side nat bool
  | SetOrderLevels

text \<open>
  A method takes the instance and gives back how it ended (a value or an exception), the
  events of the calls it made, and the instance as it left it. An exception keeps the
  changes made before it was raised.
\<close>

type_synonym ('a, 'k, 'w) action = "('k, 'w) mm \<Rightarrow> 'a outcome \<times> event list \<times> ('k, 'w) mm"

definition return :: "'a \<Rightarrow> ('a, 'k, 'w) action" where
  "return a m = (Returns a, [], m)"

definition raise :: "exn \<Rightarrow> ('a, 'k, 'w) action" where
  "raise e m = (Raises e, [], m)"

definition and_then :: "('a, 'k, 'w) action \<Rightarrow> ('a \<Rightarrow> ('b, 'k, 'w) action) \<Rightarrow> ('b, 'k, 'w) action" where
  "and_then f g m =
     (case f m of
        (Returns a, es, m1) \<Rightarrow> (case g a m1 of (r, es', m2) \<Rightarrow> (r, es @ es', m2))
      | (Raises e, es, m1) \<Rightarrow> (Raises e, es, m1))"

definition enter :: "event \<Rightarrow> (unit, 'k, 'w) action" where
  "enter ev m = (Returns (), [ev], m)"

text \<open>
  The child class: the methods it completes and, since \<^verbatim>\<open>self.symbol\<close> is looked up on the
  instance first and on its class next, the attribute \<^verbatim>\<open>symbol\<close> of the class, if it has
  one (the base class has none). Each method is a method of the instance: it may change any
  attribute, and it may raise.
\<close>

record ('k, 'w) hooks =
  class_symbol :: "string option"
  check_order_fills :: "('k, 'w) mm \<Rightarrow> bool outcome \<times> ('k, 'w) mm"
  delete_all_orders :: "string \<Rightarrow> bool \<Rightarrow> int \<Rightarrow> ('k, 'w) mm \<Rightarrow> bool outcome \<times> ('k, 'w) mm"
  order_refresh_needed :: "('k, 'w) mm \<Rightarrow> (bool \<times> bool) outcome \<times> ('k, 'w) mm"
  process_order_fill :: "('k, 'w) mm \<Rightarrow> unit outcome \<times> ('k, 'w) mm"
  refresh_individual_orders :: "('k, 'w) mm \<Rightarrow> unit outcome \<times> ('k, 'w) mm"
  send_limit_order :: "'k \<Rightarrow> bool \<Rightarrow> ('k, 'w) mm \<Rightarrow> string outcome \<times> ('k, 'w) mm"
  set_order_levels :: "('k, 'w) mm \<Rightarrow> unit outcome \<times> ('k, 'w) mm"

definition call :: "event \<Rightarrow> (('k, 'w) mm \<Rightarrow> 'a outcome \<times> ('k, 'w) mm) \<Rightarrow> ('a, 'k, 'w) action" where
  "call ev f m = (case f m of (r, m1) \<Rightarrow> (r, [ev], m1))"

definition getitem :: "(('k, 'w) mm \<Rightarrow> 'v dict) \<Rightarrow> int \<Rightarrow> ('v, 'k, 'w) action" where
  "getitem d i m =
     (case map_of (d m) i of
        None \<Rightarrow> (Raises (KeyError i), [], m)
      | Some v \<Rightarrow> (Returns v, [], m))"

text \<open>
  \<^verbatim>\<open>self.symbol\<close>: the attribute of the instance if it holds one, else the attribute of
  the class, else an \<^verbatim>\<open>AttributeError\<close>.
\<close>

definition lookup_symbol :: "('k, 'w) hooks \<Rightarrow> ('k, 'w) mm \<Rightarrow> string option" where
  "lookup_symbol h m = (case symbol m of Some s \<Rightarrow> Some s | None \<Rightarrow> class_symbol h)"

definition getattr_symbol :: "('k, 'w) hooks \<Rightarrow> (string, 'k, 'w) action" where
  "getattr_symbol h m =
     (case lookup_symbol h m of
        None \<Rightarrow> (Raises (AttributeError ''symbol''), [], m)
      | Some s \<Rightarrow> (Returns s, [], m))"

subsection \<open>The constructor (lines 34-79)\<close>

definition init :: "string \<Rightarrow> string \<Rightarrow> string \<Rightarrow> 'w \<Rightarrow> ('k, 'w) mm" where
  "init b q s x =
     \<lparr>base = b, quote = q, mm_symbol = s,
      ask_levels = [], bid_levels = [], active_asks = [], active_bids = [],
      symbol = None, extra = x\<rparr>"

subsection \<open>\<^verbatim>\<open>send_all_orders\<close> (lines 251-270)\<close>

text \<open>
  The right-hand side of \<^verbatim>\<open>self.active_asks[i] = self.send_limit_order(...)\<close> is evaluated
  first; the store goes to the dictionary the instance holds when the call is back.
\<close>

definition send_ask :: "('k, 'w) hooks \<Rightarrow> nat \<Rightarrow> (unit, 'k, 'w) action" where
  "send_ask h i =
     and_then (getitem ask_levels (int i)) (\<lambda>kwargs.
     and_then (call (SendLimitOrder Ask i False) (send_limit_order h kwargs False)) (\<lambda>clOrdID m.
       (Returns (), [], m\<lparr>active_asks := AList.update (int i) clOrdID (active_asks m)\<rparr>)))"

definition send_bid :: "('k, 'w) hooks \<Rightarrow> nat \<Rightarrow> (unit, 'k, 'w) action" where
  "send_bid h i =
     and_then (getitem bid_levels (int i)) (\<lambda>kwargs.
     and_then (call (SendLimitOrder Bid i False) (send_limit_order h kwargs False)) (\<lambda>clOrdID m.
       (Returns (), [], m\<lparr>active_bids := AList.update (int i) clOrdID (active_bids m)\<rparr>)))"

definition send_iteration :: "('k, 'w) hooks \<Rightarrow> nat \<Rightarrow> nat \<Rightarrow> nat \<Rightarrow> (unit, 'k, 'w) action" where
  "send_iteration h num_asks num_bids i =
     and_then (if i < num_asks then send_ask h i else return ()) (\<lambda>_.
     if i < num_bids then send_bid h i else return ())"

fun send_loop :: "('k, 'w) hooks \<Rightarrow> nat \<Rightarrow> nat \<Rightarrow> nat list \<Rightarrow> (unit, 'k, 'w) action" where
  "send_loop h num_asks num_bids [] m = return () m"
| "send_loop h num_asks num_bids (i # is) m =
     and_then (send_iteration h num_asks num_bids i) (\<lambda>_. send_loop h num_asks num_bids is) m"

definition send_all_orders :: "('k, 'w) hooks \<Rightarrow> (unit, 'k, 'w) action" where
  "send_all_orders h m =
     (let num_asks = length (ask_levels m);
          num_bids = length (bid_levels m);
          iterations = max num_asks num_bids
      in and_then (enter SendAllOrders) (\<lambda>_.
         send_loop h num_asks num_bids [0..<iterations]) m)"

subsection \<open>\<^verbatim>\<open>refresh_all_orders\<close> (lines 204-232)\<close>

text \<open>
  The message of the exception of line 224 formats the bound method; it is shortened to
  the method's name here.
\<close>

definition refresh_all_orders :: "('k, 'w) hooks \<Rightarrow> (unit, 'k, 'w) action" where
  "refresh_all_orders h =
     and_then (enter RefreshAllOrders) (\<lambda>_.
     and_then (getattr_symbol h) (\<lambda>sy.
     and_then (call (DeleteAllOrders sy True 1) (delete_all_orders h sy True 1)) (\<lambda>orders_deleted.
     and_then (if \<not> orders_deleted
               then raise (Exception ''Error Deleting All Orders in refresh_all_orders.'')
               else return ()) (\<lambda>_.
     and_then (call CheckOrderFills (check_order_fills h)) (\<lambda>filled.
     and_then (if filled then call ProcessOrderFill (process_order_fill h) else return ()) (\<lambda>_.
     and_then (call SetOrderLevels (set_order_levels h)) (\<lambda>_.
     send_all_orders h)))))))"

subsection \<open>\<^verbatim>\<open>run\<close> (lines 81-130)\<close>

text \<open>
  One pass through the body of \<^verbatim>\<open>while True\<close> (lines 106-130). Both flags are assigned
  at its first line, so the body depends on the instance only; it returns the flags as they
  are at its end.
\<close>

definition run_iteration :: "('k, 'w) hooks \<Rightarrow> (bool \<times> bool, 'k, 'w) action" where
  "run_iteration h =
     and_then (call OrderRefreshNeeded (order_refresh_needed h)) (\<lambda>(refresh_individually, refresh_all).
     and_then (if \<not> refresh_individually \<and> \<not> refresh_all
               then and_then (call CheckOrderFills (check_order_fills h)) (\<lambda>filled.
                    if filled then call ProcessOrderFill (process_order_fill h) else return ())
               else return ()) (\<lambda>_.
     if refresh_all
     then and_then (refresh_all_orders h) (\<lambda>_. return (False, False))
     else if refresh_individually
     then and_then (call RefreshIndividualOrders (refresh_individual_orders h)) (\<lambda>_.
          return (False, False))
     else return (refresh_individually, refresh_all)))"




section \<open>Auxiliary notions\<close>

subsection \<open>The events of a submission round\<close>

text \<open>
  The submissions of iteration \<open>i\<close> of the loop of \<^verbatim>\<open>send_all_orders\<close>: the ask of level
  \<open>i\<close> when \<open>i < num_asks\<close>, then the bid of level \<open>i\<close> when \<open>i < num_bids\<close>.
  \<open>all_events\<close> is a complete round: the entry of the method and the iterations
  \<open>0, ..., max num_asks num_bids - 1\<close>.
\<close>
definition level_events :: "nat \<Rightarrow> nat \<Rightarrow> nat \<Rightarrow> event list" where
  "level_events num_asks num_bids i =
     (if i < num_asks then [SendLimitOrder Ask i False] else []) @
     (if i < num_bids then [SendLimitOrder Bid i False] else [])"

definition all_events :: "nat \<Rightarrow> nat \<Rightarrow> event list" where
  "all_events num_asks num_bids =
     SendAllOrders # concat (map (level_events num_asks num_bids) [0..<max num_asks num_bids])"

fun is_send :: "event \<Rightarrow> bool" where
  "is_send (SendLimitOrder sd i v) = True"
| "is_send _ = False"

text \<open>
  The round written as a list. \<open>submissions\<close> lists what a round submits: for
  \<open>i = 0, ..., max num_asks num_bids - 1\<close>, the ask of level \<open>i\<close> if \<open>i < num_asks\<close>,
  then the bid of level \<open>i\<close> if \<open>i < num_bids\<close>. \<open>submit\<close> is one submission (lookup of
  the level, call, store of the result) and \<open>in_order\<close> runs a list of actions up to the
  first exception.
\<close>
definition submit :: "('k, 'w) hooks \<Rightarrow> side \<times> nat \<Rightarrow> (unit, 'k, 'w) action" where
  "submit h p = (case p of (Ask, i) \<Rightarrow> send_ask h i | (Bid, i) \<Rightarrow> send_bid h i)"

fun in_order :: "(unit, 'k, 'w) action list \<Rightarrow> (unit, 'k, 'w) action" where
  "in_order [] m = return () m"
| "in_order (a # as) m = and_then a (\<lambda>_. in_order as) m"

definition level_submissions :: "nat \<Rightarrow> nat \<Rightarrow> nat \<Rightarrow> (side \<times> nat) list" where
  "level_submissions num_asks num_bids i =
     (if i < num_asks then [(Ask, i)] else []) @ (if i < num_bids then [(Bid, i)] else [])"

definition submissions :: "nat \<Rightarrow> nat \<Rightarrow> (side \<times> nat) list" where
  "submissions num_asks num_bids =
     concat (map (level_submissions num_asks num_bids) [0..<max num_asks num_bids])"

text \<open>
  The part of \<^verbatim>\<open>send_all_orders\<close> that precedes the submission of the ask of level \<open>i\<close>
  (the iterations before \<open>i\<close>), and the part that precedes the submission of the bid
  of level \<open>i\<close> (those iterations and the ask of iteration \<open>i\<close>): they give the
  instance on which that submission is called.
\<close>
definition before_ask :: "('k, 'w) hooks \<Rightarrow> nat \<Rightarrow> (unit, 'k, 'w) action" where
  "before_ask h i m =
     send_loop h (length (ask_levels m)) (length (bid_levels m)) [0..<i] m"

definition before_bid :: "('k, 'w) hooks \<Rightarrow> nat \<Rightarrow> (unit, 'k, 'w) action" where
  "before_bid h i m =
     and_then (send_loop h (length (ask_levels m)) (length (bid_levels m)) [0..<i]) (\<lambda>_.
       if i < length (ask_levels m) then send_ask h i else return ()) m"

subsection \<open>Conditions on the methods of a child class\<close>

text \<open>
  \<^verbatim>\<open>send_limit_order\<close> is a method of the instance, so nothing in the class keeps it from
  assigning the four dictionaries or from raising. The properties of a submission round that
  depend on the primitive leaving the level dictionaries (or the dictionaries of active
  orders) alone, or on its returning, say so through these conditions.
\<close>
definition send_keeps_levels :: "('k, 'w) hooks \<Rightarrow> bool" where
  "send_keeps_levels h =
     (\<forall>kwargs v m. ask_levels (snd (send_limit_order h kwargs v m)) = ask_levels m \<and>
                   bid_levels (snd (send_limit_order h kwargs v m)) = bid_levels m)"

definition send_keeps_active :: "('k, 'w) hooks \<Rightarrow> bool" where
  "send_keeps_active h =
     (\<forall>kwargs v m. active_asks (snd (send_limit_order h kwargs v m)) = active_asks m \<and>
                   active_bids (snd (send_limit_order h kwargs v m)) = active_bids m)"

definition send_returns :: "('k, 'w) hooks \<Rightarrow> bool" where
  "send_returns h = (\<forall>kwargs v m. \<exists>c. fst (send_limit_order h kwargs v m) = Returns c)"

text \<open>
  The methods called by \<^verbatim>\<open>refresh_all_orders\<close> leave the dictionaries of active orders as
  they found them.
\<close>
definition hooks_keep_active :: "('k, 'w) hooks \<Rightarrow> bool" where
  "hooks_keep_active h =
     ((\<forall>m. active_asks (snd (check_order_fills h m)) = active_asks m \<and>
           active_bids (snd (check_order_fills h m)) = active_bids m) \<and>
      (\<forall>sy v n m. active_asks (snd (delete_all_orders h sy v n m)) = active_asks m \<and>
           active_bids (snd (delete_all_orders h sy v n m)) = active_bids m) \<and>
      (\<forall>m. active_asks (snd (process_order_fill h m)) = active_asks m \<and>
           active_bids (snd (process_order_fill h m)) = active_bids m) \<and>
      (\<forall>m. active_asks (snd (set_order_levels h m)) = active_asks m \<and>
           active_bids (snd (set_order_levels h m)) = active_bids m) \<and>
      send_keeps_active h)"

subsection \<open>Keys of the level dictionaries\<close>

text \<open>
  Level \<open>i\<close> is below the count of a side whose dictionary has no key \<open>i\<close>;
  \<open>exact_keys d\<close> says that the keys of \<open>d\<close> are exactly \<open>0, ..., len(d) - 1\<close>.
\<close>
definition level_missing :: "nat \<Rightarrow> nat \<Rightarrow> ('k, 'w) mm \<Rightarrow> nat \<Rightarrow> bool" where
  "level_missing na nb m i =
     (i < na \<and> map_of (ask_levels m) (int i) = None \<or>
      i < nb \<and> map_of (bid_levels m) (int i) = None)"

definition missing :: "('k, 'w) mm \<Rightarrow> nat \<Rightarrow> bool" where
  "missing m i = level_missing (length (ask_levels m)) (length (bid_levels m)) m i"

definition exact_keys :: "'v dict \<Rightarrow> bool" where
  "exact_keys d = (keys d = int ` {0..<length d})"

subsection \<open>One handle per level\<close>










subsection \<open>Example instances\<close>

text \<open>
  A child class for the examples. Its instances carry two booleans: whether the exchange
  confirms a bulk cancellation, and whether it reports fills. The order level is the client
  order ID alone; the exchange rejects the ID \<^verbatim>\<open>rejected\<close>, and the strategy always plans one
  ask level and no bid.
\<close>
definition demo_hooks :: "bool \<times> bool \<Rightarrow> (string, bool \<times> bool) hooks" where
  "demo_hooks flags =
     \<lparr>class_symbol = None,
      check_order_fills = (\<lambda>m. (Returns (snd (extra m)), m)),
      delete_all_orders = (\<lambda>symbol verify retries m. (Returns (fst (extra m)), m)),
      order_refresh_needed = (\<lambda>m. (Returns flags, m)),
      process_order_fill = (\<lambda>m. (Returns (), m)),
      refresh_individual_orders = (\<lambda>m. (Returns (), m)),
      send_limit_order = (\<lambda>clOrdID verifyOrder m.
        (Returns (if clOrdID = ''rejected'' then '''' else clOrdID), m)),
      set_order_levels = (\<lambda>m. (Returns (), m\<lparr>ask_levels := [(0, ''a0'')], bid_levels := []\<rparr>))\<rparr>"

text \<open>
  The same child class with the attribute \<^verbatim>\<open>symbol\<close> on the class.
\<close>
definition demo_class_hooks :: "(string, bool \<times> bool) hooks" where
  "demo_class_hooks = (demo_hooks (False, True))\<lparr>class_symbol := Some ''BTC-USD''\<rparr>"

definition demo_mm :: "bool \<times> bool \<Rightarrow> (string, bool \<times> bool) mm" where
  "demo_mm x = (init ''BTC'' ''USD'' ''BTC-USD'' x)\<lparr>symbol := Some ''BTC-USD''\<rparr>"

definition demo_rejected :: "(string, bool \<times> bool) mm" where
  "demo_rejected =
     (demo_mm (True, False))
       \<lparr>ask_levels := [(0, ''a0''), (1, ''rejected'')], bid_levels := [(0, ''rejected'')]\<rparr>"

definition demo_two_levels :: "(string, bool \<times> bool) mm" where
  "demo_two_levels = (demo_mm (True, False))\<lparr>ask_levels := [(0, ''x0''), (1, ''x1'')]\<rparr>"

definition demo_sent :: "(string, bool \<times> bool) mm" where
  "demo_sent = demo_two_levels\<lparr>active_asks := [(0, ''x0''), (1, ''x1'')]\<rparr>"

definition demo_refreshed :: "(string, bool \<times> bool) mm" where
  "demo_refreshed =
     demo_sent\<lparr>ask_levels := [(0, ''a0'')], bid_levels := [],
                active_asks := [(0, ''a0''), (1, ''x1'')]\<rparr>"

definition demo_mixed :: "(string, bool \<times> bool) mm" where
  "demo_mixed =
     (demo_mm (True, False))
       \<lparr>ask_levels := [(0, ''a0''), (1, ''a1''), (2, ''a2'')], bid_levels := [(0, ''b0'')]\<rparr>"

definition demo_no_bids :: "(string, bool \<times> bool) mm" where
  "demo_no_bids = (demo_mm (True, False))\<lparr>ask_levels := [(0, ''a0'')]\<rparr>"

definition demo_sparse :: "(string, bool \<times> bool) mm" where
  "demo_sparse = (demo_mm (True, False))\<lparr>ask_levels := [(0, ''a0''), (2, ''a2'')]\<rparr>"

section \<open>The submission loop\<close>

text \<open>
  What one submission does, with the dictionary lookup, the call and the store spelled out.
\<close>

lemma send_ask_eq:
  "send_ask h i m =
     (case map_of (ask_levels m) (int i) of
        None \<Rightarrow> (Raises (KeyError (int i)), [], m)
      | Some kw \<Rightarrow>
          (case send_limit_order h kw False m of
             (Returns c, m1) \<Rightarrow>
               (Returns (), [SendLimitOrder Ask i False],
                m1\<lparr>active_asks := AList.update (int i) c (active_asks m1)\<rparr>)
           | (Raises e, m1) \<Rightarrow> (Raises e, [SendLimitOrder Ask i False], m1)))"
  by (simp add: send_ask_def and_then_def getitem_def call_def
      split: option.splits prod.splits outcome.splits)

lemma send_bid_eq:
  "send_bid h i m =
     (case map_of (bid_levels m) (int i) of
        None \<Rightarrow> (Raises (KeyError (int i)), [], m)
      | Some kw \<Rightarrow>
          (case send_limit_order h kw False m of
             (Returns c, m1) \<Rightarrow>
               (Returns (), [SendLimitOrder Bid i False],
                m1\<lparr>active_bids := AList.update (int i) c (active_bids m1)\<rparr>)
           | (Raises e, m1) \<Rightarrow> (Raises e, [SendLimitOrder Bid i False], m1)))"
  by (simp add: send_bid_def and_then_def getitem_def call_def
      split: option.splits prod.splits outcome.splits)

lemma send_iteration_split:
  assumes "send_iteration h na nb i m = (r, es, m')"
  obtains
    (ask_raises) e where "i < na" "send_ask h i m = (Raises e, es, m')" "r = Raises e"
  | (bid) ea ma eb where
      "(if i < na then send_ask h i m else (Returns (), [], m)) = (Returns (), ea, ma)"
      "(if i < nb then send_bid h i ma else (Returns (), [], ma)) = (r, eb, m')"
      "es = ea @ eb"
  using assms
  by (auto simp: send_iteration_def and_then_def return_def
      split: prod.splits outcome.splits if_splits)

lemma send_all_orders_loop:
  assumes "send_all_orders h m = (r, es, m')"
  obtains es1 where
    "send_loop h (length (ask_levels m)) (length (bid_levels m))
       [0..<max (length (ask_levels m)) (length (bid_levels m))] m = (r, es1, m')"
    "es = SendAllOrders # es1"
  using assms
  by (auto simp: send_all_orders_def Let_def and_then_def enter_def split: prod.splits)

subsection \<open>The loop as a list of submissions\<close>

lemma and_then_return: "and_then (return a) g = g a"
  by (rule ext) (simp add: and_then_def return_def split: prod.splits)

lemma and_then_unit: "and_then f (\<lambda>_. return ()) = (f :: (unit, 'k, 'w) action)"
  by (rule ext) (simp add: and_then_def return_def split: prod.splits outcome.splits)

lemma and_then_return_right: "and_then f return = f"
  by (rule ext) (simp add: and_then_def return_def split: prod.splits outcome.splits)

lemma and_then_assoc: "and_then (and_then f g) k = and_then f (\<lambda>a. and_then (g a) k)"
  by (rule ext) (simp add: and_then_def split: prod.splits outcome.splits)

lemma and_then_ReturnsD:
  assumes "and_then f g m = (Returns b, es, m')"
  obtains a es1 m1 es2 where "f m = (Returns a, es1, m1)" "g a m1 = (Returns b, es2, m')"
    "es = es1 @ es2"
  using assms by (auto simp: and_then_def split: prod.splits outcome.splits)

lemma send_loop_Nil: "send_loop h na nb [] = return ()"
  by (rule ext) simp

lemma send_loop_Cons:
  "send_loop h na nb (j # js) = and_then (send_iteration h na nb j) (\<lambda>_. send_loop h na nb js)"
  by (rule ext) simp

lemma send_loop_append:
  "send_loop h na nb (xs @ ys) = and_then (send_loop h na nb xs) (\<lambda>_. send_loop h na nb ys)"
  by (induction xs) (simp_all add: send_loop_Nil send_loop_Cons and_then_return and_then_assoc)

lemma upt_split: "i < k \<Longrightarrow> [0..<k] = [0..<i] @ i # [Suc i..<k]"
proof -
  assume "i < k"
  then have "[0..<i + (k - i)] = [0..<i] @ [i..<i + (k - i)]"
    by (intro upt_add_eq_append) simp
  with \<open>i < k\<close> show ?thesis
    by (simp add: upt_conv_Cons)
qed

lemma in_order_Nil: "in_order [] = return ()"
  by (rule ext) simp

lemma in_order_Cons: "in_order (a # as) = and_then a (\<lambda>_. in_order as)"
  by (rule ext) simp

lemma in_order_append: "in_order (xs @ ys) = and_then (in_order xs) (\<lambda>_. in_order ys)"
  by (induction xs) (simp_all add: in_order_Nil in_order_Cons and_then_return and_then_assoc)

lemma send_iteration_in_order:
  "send_iteration h na nb i = in_order (map (submit h) (level_submissions na nb i))"
  by (simp add: send_iteration_def level_submissions_def submit_def in_order_Nil in_order_Cons
      and_then_return and_then_unit and_then_return_right)

lemma send_loop_in_order:
  "send_loop h na nb js =
     in_order (map (submit h) (concat (map (level_submissions na nb) js)))"
  by (induction js)
    (simp_all add: send_loop_Nil send_loop_Cons in_order_Nil in_order_append
      send_iteration_in_order)

lemma send_all_orders_in_order:
  "send_all_orders h m =
     and_then (enter SendAllOrders) (\<lambda>_.
       in_order (map (submit h)
         (submissions (length (ask_levels m)) (length (bid_levels m))))) m"
  by (simp add: send_all_orders_def Let_def send_loop_in_order submissions_def)

subsection \<open>Events\<close>

lemma send_iteration_events:
  "send_iteration h na nb i m = (r, es, m') \<Longrightarrow>
   prefix es (level_events na nb i) \<and> (r = Returns () \<longrightarrow> es = level_events na nb i)"
  by (auto simp: send_iteration_def and_then_def send_ask_eq send_bid_eq return_def level_events_def
      split: option.splits prod.splits outcome.splits if_splits)

lemma send_loop_events:
  "send_loop h na nb js m = (r, es, m') \<Longrightarrow>
   prefix es (concat (map (level_events na nb) js)) \<and>
   (r = Returns () \<longrightarrow> es = concat (map (level_events na nb) js))"
proof (induction js arbitrary: m r es m')
  case Nil
  then show ?case by (simp add: return_def)
next
  case (Cons j js)
  obtain r1 es1 m1 where it: "send_iteration h na nb j m = (r1, es1, m1)"
    by (cases "send_iteration h na nb j m") auto
  note ev = send_iteration_events [OF it]
  show ?case
  proof (cases r1)
    case (Raises e)
    with Cons.prems it ev show ?thesis
      by (auto simp: and_then_def)
  next
    case (Returns u)
    obtain r2 es2 m2 where lp: "send_loop h na nb js m1 = (r2, es2, m2)"
      by (cases "send_loop h na nb js m1") auto
    from Cons.IH [OF lp] Cons.prems it ev Returns lp show ?thesis
      by (auto simp: and_then_def)
  qed
qed

lemma send_all_orders_trace:
  assumes "send_all_orders h m = (r, es, m')"
  shows "prefix es (all_events (length (ask_levels m)) (length (bid_levels m))) \<and>
         (r = Returns () \<longrightarrow> es = all_events (length (ask_levels m)) (length (bid_levels m)))"
proof -
  let ?na = "length (ask_levels m)" and ?nb = "length (bid_levels m)"
  obtain r1 es1 m1 where lp: "send_loop h ?na ?nb [0..<max ?na ?nb] m = (r1, es1, m1)"
    by (cases "send_loop h ?na ?nb [0..<max ?na ?nb] m") auto
  from assms lp have "r = r1" "es = SendAllOrders # es1"
    by (simp_all add: send_all_orders_def Let_def and_then_def enter_def)
  with send_loop_events [OF lp] show ?thesis
    by (simp add: all_events_def)
qed

lemma list_all_level_events: "list_all is_send (level_events na nb i)"
  by (simp add: level_events_def)

lemma list_all_concat_level_events: "list_all is_send (concat (map (level_events na nb) js))"
  by (induction js) (simp_all add: list_all_level_events)

lemma send_all_orders_sends:
  assumes "send_all_orders h m = (r, es, m')"
  shows "\<exists>sends. list_all is_send sends \<and> prefix es (SendAllOrders # sends) \<and>
           (r = Returns () \<longrightarrow> es = SendAllOrders # sends)"
  using send_all_orders_trace [OF assms] list_all_concat_level_events
  unfolding all_events_def by blast

lemma bid_event_bound:
  "SendLimitOrder Bid i v \<in> set (all_events na nb) \<Longrightarrow> i < nb"
  by (auto simp: all_events_def level_events_def split: if_splits)

lemma bid_submission_bound: "(Bid, i) \<in> set (submissions na nb) \<Longrightarrow> i < nb"
  by (auto simp: submissions_def level_submissions_def split: if_splits)

lemma upt_3: "[0..<3] = [0, 1, 2]"
  by (simp add: upt_rec)

lemma all_events_3_1:
  "all_events 3 1 =
     [SendAllOrders, SendLimitOrder Ask 0 False, SendLimitOrder Bid 0 False,
      SendLimitOrder Ask 1 False, SendLimitOrder Ask 2 False]"
  by (simp add: all_events_def level_events_def upt_3)

lemma submissions_3_1: "submissions 3 1 = [(Ask, 0), (Bid, 0), (Ask, 1), (Ask, 2)]"
  by (simp add: submissions_def level_submissions_def upt_3)

subsection \<open>Level dictionaries\<close>

lemma send_keeps_levelsD:
  "send_keeps_levels h \<Longrightarrow> send_limit_order h kw v m = (r, m1) \<Longrightarrow>
   ask_levels m1 = ask_levels m \<and> bid_levels m1 = bid_levels m"
  unfolding send_keeps_levels_def by (metis snd_conv)

lemma send_keeps_activeD:
  "send_keeps_active h \<Longrightarrow> send_limit_order h kw v m = (r, m1) \<Longrightarrow>
   active_asks m1 = active_asks m \<and> active_bids m1 = active_bids m"
  unfolding send_keeps_active_def by (metis snd_conv)

lemma send_returnsD:
  "send_returns h \<Longrightarrow> send_limit_order h kw v m = (r, m1) \<Longrightarrow> \<exists>c. r = Returns c"
  unfolding send_returns_def by (metis fst_conv)

lemma send_ask_levels:
  assumes "send_keeps_levels h" and "send_ask h i m = (r, es, m')"
  shows "ask_levels m' = ask_levels m \<and> bid_levels m' = bid_levels m"
  using assms(2) send_keeps_levelsD [OF assms(1)]
  by (fastforce simp: send_ask_eq split: option.splits prod.splits outcome.splits)

lemma send_bid_levels:
  assumes "send_keeps_levels h" and "send_bid h i m = (r, es, m')"
  shows "ask_levels m' = ask_levels m \<and> bid_levels m' = bid_levels m"
  using assms(2) send_keeps_levelsD [OF assms(1)]
  by (fastforce simp: send_bid_eq split: option.splits prod.splits outcome.splits)

lemma send_iteration_levels:
  assumes "send_keeps_levels h" and "send_iteration h na nb i m = (r, es, m')"
  shows "ask_levels m' = ask_levels m \<and> bid_levels m' = bid_levels m"
  using assms(2)
proof (cases rule: send_iteration_split)
  case (ask_raises e)
  then show ?thesis using send_ask_levels [OF assms(1)] by blast
next
  case (bid ea ma eb)
  from bid(1) have "ask_levels ma = ask_levels m \<and> bid_levels ma = bid_levels m"
    using send_ask_levels [OF assms(1)] by (auto split: if_splits)
  moreover from bid(2) have "ask_levels m' = ask_levels ma \<and> bid_levels m' = bid_levels ma"
    using send_bid_levels [OF assms(1)] by (auto split: if_splits)
  ultimately show ?thesis by simp
qed

lemma send_loop_levels:
  assumes "send_keeps_levels h"
  shows "send_loop h na nb js m = (r, es, m') \<Longrightarrow>
         ask_levels m' = ask_levels m \<and> bid_levels m' = bid_levels m"
proof (induction js arbitrary: m r es m')
  case Nil
  then show ?case by (simp add: return_def)
next
  case (Cons j js)
  obtain r1 es1 m1 where it: "send_iteration h na nb j m = (r1, es1, m1)"
    by (cases "send_iteration h na nb j m") auto
  note lv = send_iteration_levels [OF assms it]
  show ?case
  proof (cases r1)
    case (Raises e)
    with Cons.prems it lv show ?thesis by (auto simp: and_then_def)
  next
    case (Returns u)
    obtain r2 es2 m2 where lp: "send_loop h na nb js m1 = (r2, es2, m2)"
      by (cases "send_loop h na nb js m1") auto
    from Cons.IH [OF lp] Cons.prems it lv Returns lp show ?thesis
      by (auto simp: and_then_def)
  qed
qed

lemma level_missing_cong:
  "ask_levels m' = ask_levels m \<and> bid_levels m' = bid_levels m \<Longrightarrow>
   level_missing na nb m' = level_missing na nb m"
  by (simp add: level_missing_def fun_eq_iff)

lemma send_iteration_returns:
  assumes "send_keeps_levels h" and "send_iteration h na nb i m = (Returns (), es, m')"
  shows "\<not> level_missing na nb m i"
  using assms(2)
proof (cases rule: send_iteration_split)
  case (ask_raises e)
  then show ?thesis by simp
next
  case (bid ea ma eb)
  from bid(1) have a: "i < na \<longrightarrow> map_of (ask_levels m) (int i) \<noteq> None"
    by (auto simp: send_ask_eq split: if_splits option.splits)
  from bid(1) have "bid_levels ma = bid_levels m"
    using send_ask_levels [OF assms(1)] by (auto split: if_splits)
  with bid(2) have "i < nb \<longrightarrow> map_of (bid_levels m) (int i) \<noteq> None"
    by (auto simp: send_bid_eq split: if_splits option.splits)
  with a show ?thesis by (auto simp: level_missing_def)
qed

lemma send_iteration_outcome:
  assumes "send_keeps_levels h" and "send_returns h"
    and "send_iteration h na nb i m = (r, es, m')"
  shows "r = (if level_missing na nb m i then Raises (KeyError (int i)) else Returns ())"
  using assms(3)
proof (cases rule: send_iteration_split)
  case (ask_raises e)
  then show ?thesis
    using send_returnsD [OF assms(2)]
    by (fastforce simp: send_ask_eq level_missing_def split: option.splits prod.splits outcome.splits)
next
  case (bid ea ma eb)
  from bid(1) have a: "i < na \<longrightarrow> map_of (ask_levels m) (int i) \<noteq> None"
    by (auto simp: send_ask_eq split: if_splits option.splits)
  from bid(1) have "bid_levels ma = bid_levels m"
    using send_ask_levels [OF assms(1)] by (auto split: if_splits)
  with bid(2) have "r = (if i < nb \<and> map_of (bid_levels m) (int i) = None
      then Raises (KeyError (int i)) else Returns ())"
    using send_returnsD [OF assms(2)]
    by (fastforce simp: send_bid_eq split: if_splits option.splits prod.splits outcome.splits)
  with a show ?thesis by (auto simp: level_missing_def)
qed

lemma send_loop_returns:
  assumes "send_keeps_levels h"
  shows "send_loop h na nb js m = (Returns (), es, m') \<Longrightarrow> j \<in> set js \<Longrightarrow>
         \<not> level_missing na nb m j"
proof (induction js arbitrary: m es m')
  case Nil
  then show ?case by simp
next
  case (Cons i js)
  obtain r1 es1 m1 where it: "send_iteration h na nb i m = (r1, es1, m1)"
    by (cases "send_iteration h na nb i m") auto
  with Cons.prems(1) have r1: "r1 = Returns ()"
    by (cases r1) (auto simp: and_then_def)
  obtain r2 es2 m2 where lp: "send_loop h na nb js m1 = (r2, es2, m2)"
    by (cases "send_loop h na nb js m1") auto
  with Cons.prems(1) it r1 have "r2 = Returns ()"
    by (auto simp: and_then_def)
  with lp Cons.IH have "j \<in> set js \<Longrightarrow> \<not> level_missing na nb m1 j"
    by blast
  moreover note level_missing_cong [OF send_iteration_levels [OF assms it], of na nb]
  moreover note send_iteration_returns [OF assms it [unfolded r1]]
  ultimately show ?case using Cons.prems(2) by auto
qed

lemma send_loop_outcome:
  assumes "send_keeps_levels h" and "send_returns h"
  shows "send_loop h na nb js m = (r, es, m') \<Longrightarrow>
         (if \<exists>j \<in> set js. level_missing na nb m j
          then \<exists>j \<in> set js. level_missing na nb m j \<and> r = Raises (KeyError (int j))
          else r = Returns ())"
proof (induction js arbitrary: m r es m')
  case Nil
  then show ?case by (simp add: return_def)
next
  case (Cons i js)
  obtain r1 es1 m1 where it: "send_iteration h na nb i m = (r1, es1, m1)"
    by (cases "send_iteration h na nb i m") auto
  note out = send_iteration_outcome [OF assms it]
  note cong = level_missing_cong [OF send_iteration_levels [OF assms(1) it], of na nb]
  show ?case
  proof (cases "level_missing na nb m i")
    case True
    with out Cons.prems it show ?thesis by (auto simp: and_then_def)
  next
    case False
    obtain r2 es2 m2 where lp: "send_loop h na nb js m1 = (r2, es2, m2)"
      by (cases "send_loop h na nb js m1") auto
    from False out Cons.prems it lp have "r = r2"
      by (auto simp: and_then_def)
    moreover note Cons.IH [OF lp, unfolded cong]
    ultimately show ?thesis using False by auto
  qed
qed

lemma exact_keys_iff: "exact_keys d \<longleftrightarrow> (\<forall>i<length d. map_of d (int i) \<noteq> None)"
proof
  assume "exact_keys d"
  then show "\<forall>i<length d. map_of d (int i) \<noteq> None"
    by (auto simp: exact_keys_def keys_def map_of_eq_None_iff)
next
  assume all: "\<forall>i<length d. map_of d (int i) \<noteq> None"
  have sub: "int ` {0..<length d} \<subseteq> keys d"
    using all by (auto simp: keys_def map_of_eq_None_iff)
  have "card (keys d) \<le> length d"
    unfolding keys_def by (metis card_image_le card_length le_trans List.finite_set)
  also have "length d = card (int ` {0..<length d})"
    by (simp add: card_image)
  finally have "card (keys d) \<le> card (int ` {0..<length d})" .
  moreover have "finite (keys d)"
    by (simp add: keys_def)
  ultimately have "int ` {0..<length d} = keys d"
    using sub by (rule card_seteq [rotated 1, rotated 1])
  then show "exact_keys d"
    by (simp add: exact_keys_def)
qed

lemma missing_iff:
  "(\<exists>i. missing m i) \<longleftrightarrow> \<not> (exact_keys (ask_levels m) \<and> exact_keys (bid_levels m))"
  by (auto simp: missing_def level_missing_def exact_keys_iff)

lemma missing_level_missing:
  "missing m = level_missing (length (ask_levels m)) (length (bid_levels m)) m"
  by (simp add: missing_def fun_eq_iff)

lemma missing_upt:
  "missing m i \<Longrightarrow> i \<in> set [0..<max (length (ask_levels m)) (length (bid_levels m))]"
  by (auto simp: missing_def level_missing_def)

subsection \<open>Dictionaries of active orders\<close>

lemma keys_update: "keys (AList.update k v d) = insert k (keys d)"
  by (simp add: keys_def dom_update)

lemma map_of_keys: "map_of d k = Some v \<Longrightarrow> k \<in> keys d"
  by (auto simp: keys_def dest: map_of_SomeD intro: rev_image_eqI)

lemma send_ask_active:
  assumes "send_keeps_active h" and "send_ask h i m = (r, es, m')"
  shows "active_bids m' = active_bids m \<and>
         (case r of
            Raises e \<Rightarrow> active_asks m' = active_asks m
          | Returns u \<Rightarrow> (\<exists>kw c m1. map_of (ask_levels m) (int i) = Some kw \<and>
              send_limit_order h kw False m = (Returns c, m1) \<and>
              active_asks m' = AList.update (int i) c (active_asks m)))"
  using assms(2) send_keeps_activeD [OF assms(1)]
  by (fastforce simp: send_ask_eq split: option.splits prod.splits outcome.splits)

lemma send_bid_active:
  assumes "send_keeps_active h" and "send_bid h i m = (r, es, m')"
  shows "active_asks m' = active_asks m \<and>
         (case r of
            Raises e \<Rightarrow> active_bids m' = active_bids m
          | Returns u \<Rightarrow> (\<exists>kw c m1. map_of (bid_levels m) (int i) = Some kw \<and>
              send_limit_order h kw False m = (Returns c, m1) \<and>
              active_bids m' = AList.update (int i) c (active_bids m)))"
  using assms(2) send_keeps_activeD [OF assms(1)]
  by (fastforce simp: send_bid_eq split: option.splits prod.splits outcome.splits)

lemma send_iteration_others:
  assumes "send_keeps_active h" and "send_iteration h na nb i m = (r, es, m')"
  shows "(k \<noteq> int i \<or> \<not> i < na \<longrightarrow> map_of (active_asks m') k = map_of (active_asks m) k) \<and>
         (k \<noteq> int i \<or> \<not> i < nb \<longrightarrow> map_of (active_bids m') k = map_of (active_bids m) k) \<and>
         (\<not> i < na \<longrightarrow> active_asks m' = active_asks m) \<and>
         (\<not> i < nb \<longrightarrow> active_bids m' = active_bids m)"
  using assms(2)
proof (cases rule: send_iteration_split)
  case (ask_raises e)
  from send_ask_active [OF assms(1) ask_raises(2)] ask_raises(1) show ?thesis
    by simp
next
  case (bid ea ma eb)
  have a: "active_bids ma = active_bids m \<and>
      (k \<noteq> int i \<or> \<not> i < na \<longrightarrow> map_of (active_asks ma) k = map_of (active_asks m) k) \<and>
      (\<not> i < na \<longrightarrow> active_asks ma = active_asks m)"
  proof (cases "i < na")
    case True
    with bid(1) send_ask_active [OF assms(1), of i m "Returns ()" ea ma] show ?thesis
      by (auto simp: update_conv')
  next
    case False
    with bid(1) show ?thesis by simp
  qed
  have b: "active_asks m' = active_asks ma \<and>
      (k \<noteq> int i \<or> \<not> i < nb \<longrightarrow> map_of (active_bids m') k = map_of (active_bids ma) k) \<and>
      (\<not> i < nb \<longrightarrow> active_bids m' = active_bids ma)"
  proof (cases "i < nb")
    case True
    with bid(2) send_bid_active [OF assms(1), of i ma r eb m'] show ?thesis
      by (cases r) (auto simp: update_conv')
  next
    case False
    with bid(2) show ?thesis by simp
  qed
  from a b show ?thesis by simp
qed

lemma send_loop_others:
  assumes "send_keeps_active h"
  shows "send_loop h na nb js m = (r, es, m') \<Longrightarrow>
         ((\<forall>i \<in> set js. k \<noteq> int i \<or> \<not> i < na) \<longrightarrow>
            map_of (active_asks m') k = map_of (active_asks m) k) \<and>
         ((\<forall>i \<in> set js. k \<noteq> int i \<or> \<not> i < nb) \<longrightarrow>
            map_of (active_bids m') k = map_of (active_bids m) k) \<and>
         (na = 0 \<longrightarrow> active_asks m' = active_asks m) \<and>
         (nb = 0 \<longrightarrow> active_bids m' = active_bids m)"
proof (induction js arbitrary: m r es m')
  case Nil
  then show ?case by (simp add: return_def)
next
  case (Cons j js)
  obtain r1 es1 m1 where it: "send_iteration h na nb j m = (r1, es1, m1)"
    by (cases "send_iteration h na nb j m") auto
  note st = send_iteration_others [OF assms it, of k]
  show ?case
  proof (cases r1)
    case (Raises e)
    with Cons.prems it st show ?thesis by (auto simp: and_then_def)
  next
    case (Returns u)
    obtain r2 es2 m2 where lp: "send_loop h na nb js m1 = (r2, es2, m2)"
      by (cases "send_loop h na nb js m1") auto
    from Cons.prems it Returns lp have "m' = m2"
      by (auto simp: and_then_def)
    with Cons.IH [OF lp] st show ?thesis by auto
  qed
qed

lemma send_loop_keys:
  assumes "send_keeps_active h"
  shows "send_loop h na nb js m = (r, es, m') \<Longrightarrow>
         keys (active_asks m) \<subseteq> keys (active_asks m') \<and>
         keys (active_bids m) \<subseteq> keys (active_bids m')"
proof (induction js arbitrary: m r es m')
  case Nil
  then show ?case by (simp add: return_def)
next
  case (Cons j js)
  obtain r1 es1 m1 where it: "send_iteration h na nb j m = (r1, es1, m1)"
    by (cases "send_iteration h na nb j m") auto
  have st: "keys (active_asks m) \<subseteq> keys (active_asks m1) \<and>
            keys (active_bids m) \<subseteq> keys (active_bids m1)"
    using it
  proof (cases rule: send_iteration_split)
    case (ask_raises e)
    from send_ask_active [OF assms ask_raises(2)] show ?thesis by simp
  next
    case (bid ea ma eb)
    have "keys (active_asks m) \<subseteq> keys (active_asks ma) \<and> active_bids ma = active_bids m"
      using bid(1) send_ask_active [OF assms, of j m "Returns ()" ea ma]
      by (auto simp: keys_update split: if_splits)
    moreover
    have "keys (active_bids ma) \<subseteq> keys (active_bids m1) \<and> active_asks m1 = active_asks ma"
      using bid(2) send_bid_active [OF assms, of j ma r1 eb m1]
      by (cases r1) (auto simp: keys_update split: if_splits)
    ultimately show ?thesis by auto
  qed
  show ?case
  proof (cases r1)
    case (Raises e)
    with Cons.prems it st show ?thesis by (auto simp: and_then_def)
  next
    case (Returns u)
    obtain r2 es2 m2 where lp: "send_loop h na nb js m1 = (r2, es2, m2)"
      by (cases "send_loop h na nb js m1") auto
    from Cons.prems it Returns lp have "m' = m2"
      by (auto simp: and_then_def)
    with Cons.IH [OF lp] st show ?thesis by auto
  qed
qed

lemma send_all_orders_keeps:
  assumes "send_keeps_active h" and "send_keeps_levels h"
    and "send_all_orders h m = (r, es, m')"
  shows "ask_levels m' = ask_levels m \<and> bid_levels m' = bid_levels m \<and>
         keys (active_asks m) \<subseteq> keys (active_asks m') \<and>
         keys (active_bids m) \<subseteq> keys (active_bids m') \<and>
         (\<not> (0 \<le> k \<and> k < int (length (ask_levels m))) \<longrightarrow>
            map_of (active_asks m') k = map_of (active_asks m) k) \<and>
         (\<not> (0 \<le> k \<and> k < int (length (bid_levels m))) \<longrightarrow>
            map_of (active_bids m') k = map_of (active_bids m) k)"
proof -
  let ?na = "length (ask_levels m)" and ?nb = "length (bid_levels m)"
  from assms(3) obtain es1 where
    lp: "send_loop h ?na ?nb [0..<max ?na ?nb] m = (r, es1, m')"
    by (rule send_all_orders_loop)
  have a: "\<not> (0 \<le> k \<and> k < int ?na) \<Longrightarrow> \<forall>i \<in> set [0..<max ?na ?nb]. k \<noteq> int i \<or> \<not> i < ?na"
    by auto
  have b: "\<not> (0 \<le> k \<and> k < int ?nb) \<Longrightarrow> \<forall>i \<in> set [0..<max ?na ?nb]. k \<noteq> int i \<or> \<not> i < ?nb"
    by auto
  from send_loop_levels [OF assms(2) lp] send_loop_keys [OF assms(1) lp]
    send_loop_others [OF assms(1) lp, of k] a b
  show ?thesis by blast
qed

lemma failed_ask:
  assumes ka: "send_keeps_active h"
    and all: "send_all_orders h m = (Returns (), es, m')"
    and i: "i < length (ask_levels m)"
    and before: "before_ask h i m = (Returns (), es0, ma)"
    and kw: "map_of (ask_levels ma) (int i) = Some kw"
    and fail: "send_limit_order h kw False ma = (Returns '''', mb)"
  shows "map_of (active_asks m') (int i) = Some ''''"
proof -
  let ?na = "length (ask_levels m)" and ?nb = "length (bid_levels m)"
  let ?k = "max ?na ?nb"
  from all obtain es1 where lp: "send_loop h ?na ?nb [0..<?k] m = (Returns (), es1, m')"
    by (rule send_all_orders_loop)
  from i have "i < ?k" by simp
  from lp [unfolded upt_split [OF this] send_loop_append send_loop_Cons]
  obtain u e1 m1 e2 where
    1: "send_loop h ?na ?nb [0..<i] m = (Returns u, e1, m1)" and
    2: "and_then (send_iteration h ?na ?nb i) (\<lambda>_. send_loop h ?na ?nb [Suc i..<?k]) m1 =
          (Returns (), e2, m')"
    by (rule and_then_ReturnsD)
  from 1 before have m1: "m1 = ma"
    by (simp add: before_ask_def)
  from 2 obtain v e3 mc e4 where
    3: "send_iteration h ?na ?nb i m1 = (Returns v, e3, mc)" and
    4: "send_loop h ?na ?nb [Suc i..<?k] mc = (Returns (), e4, m')"
    by (rule and_then_ReturnsD)
  from 3 have "map_of (active_asks mc) (int i) = Some ''''"
  proof (cases rule: send_iteration_split)
    case (ask_raises e)
    then show ?thesis by simp
  next
    case (bid ea mx eb)
    from bid(1) i kw fail m1
    have "active_asks mx = AList.update (int i) '''' (active_asks mb)"
      by (auto simp: send_ask_eq)
    moreover have "active_asks mc = active_asks mx"
      using bid(2) send_bid_active [OF ka, of i mx "Returns v" eb mc]
      by (auto split: if_splits)
    ultimately show ?thesis by (simp add: update_conv')
  qed
  moreover have "map_of (active_asks m') (int i) = map_of (active_asks mc) (int i)"
    using send_loop_others [OF ka 4, of "int i"] by simp
  ultimately show ?thesis by simp
qed

lemma failed_bid:
  assumes ka: "send_keeps_active h"
    and all: "send_all_orders h m = (Returns (), es, m')"
    and i: "i < length (bid_levels m)"
    and before: "before_bid h i m = (Returns (), es0, ma)"
    and kw: "map_of (bid_levels ma) (int i) = Some kw"
    and fail: "send_limit_order h kw False ma = (Returns '''', mb)"
  shows "map_of (active_bids m') (int i) = Some ''''"
proof -
  let ?na = "length (ask_levels m)" and ?nb = "length (bid_levels m)"
  let ?k = "max ?na ?nb"
  let ?ask = "if i < ?na then send_ask h i else return ()"
  let ?bid = "if i < ?nb then send_bid h i else return ()"
  from all obtain es1 where lp: "send_loop h ?na ?nb [0..<?k] m = (Returns (), es1, m')"
    by (rule send_all_orders_loop)
  from i have "i < ?k" by simp
  have "send_loop h ?na ?nb [0..<?k] =
      and_then (and_then (send_loop h ?na ?nb [0..<i]) (\<lambda>_. ?ask))
        (\<lambda>_. and_then ?bid (\<lambda>_. send_loop h ?na ?nb [Suc i..<?k]))"
    unfolding upt_split [OF \<open>i < ?k\<close>] send_loop_append send_loop_Cons send_iteration_def
    by (simp only: and_then_assoc)
  with lp obtain u e1 m1 e2 where
    1: "and_then (send_loop h ?na ?nb [0..<i]) (\<lambda>_. ?ask) m = (Returns u, e1, m1)" and
    2: "and_then ?bid (\<lambda>_. send_loop h ?na ?nb [Suc i..<?k]) m1 = (Returns (), e2, m')"
    by (metis and_then_ReturnsD)
  from 1 before have m1: "m1 = ma"
    by (simp add: before_bid_def)
  from 2 obtain v e3 mc e4 where
    3: "?bid m1 = (Returns v, e3, mc)" and
    4: "send_loop h ?na ?nb [Suc i..<?k] mc = (Returns (), e4, m')"
    by (rule and_then_ReturnsD)
  from 3 i kw fail m1 have "active_bids mc = AList.update (int i) '''' (active_bids mb)"
    by (auto simp: send_bid_eq)
  then have "map_of (active_bids mc) (int i) = Some ''''"
    by (simp add: update_conv')
  moreover have "map_of (active_bids m') (int i) = map_of (active_bids mc) (int i)"
    using send_loop_others [OF ka 4, of "int i"] by simp
  ultimately show ?thesis by simp
qed

subsection \<open>The invariant of the dictionaries of active orders\<close>

















subsection \<open>Submissions and cancellations\<close>









section \<open>Refresh and the loop of run\<close>

lemma refresh_all_orders_deleted:
  assumes "lookup_symbol h m = Some sy"
    and "delete_all_orders h sy True 1 m = (Returns True, m1)"
  shows "refresh_all_orders h m =
           (case check_order_fills h m1 of
              (Raises e, m2) \<Rightarrow>
                (Raises e, [RefreshAllOrders, DeleteAllOrders sy True 1, CheckOrderFills], m2)
            | (Returns filled, m2) \<Rightarrow>
                (case (if filled then process_order_fill h m2 else (Returns (), m2)) of
                   (Raises e, m3) \<Rightarrow>
                     (Raises e, [RefreshAllOrders, DeleteAllOrders sy True 1, CheckOrderFills] @
                        (if filled then [ProcessOrderFill] else []), m3)
                 | (Returns u, m3) \<Rightarrow>
                     (case set_order_levels h m3 of
                        (Raises e, m4) \<Rightarrow>
                          (Raises e, [RefreshAllOrders, DeleteAllOrders sy True 1, CheckOrderFills] @
                             (if filled then [ProcessOrderFill] else []) @ [SetOrderLevels], m4)
                      | (Returns u, m4) \<Rightarrow>
                          (case send_all_orders h m4 of (r, es, m5) \<Rightarrow>
                             (r, [RefreshAllOrders, DeleteAllOrders sy True 1, CheckOrderFills] @
                                 (if filled then [ProcessOrderFill] else []) @ [SetOrderLevels] @ es,
                              m5)))))"
  using assms
  by (simp add: refresh_all_orders_def and_then_def enter_def getattr_symbol_def call_def
      raise_def return_def split: prod.splits outcome.splits)

lemma refresh_all_orders_trace:
  assumes "lookup_symbol h m = Some sy"
    and "delete_all_orders h sy True 1 m = (Returns True, m1)"
    and "refresh_all_orders h m = (r, es, m')"
  shows "\<exists>rest sends.
           es = [RefreshAllOrders, DeleteAllOrders sy True 1, CheckOrderFills] @
                (if fst (check_order_fills h m1) = Returns True then [ProcessOrderFill] else []) @
                rest \<and>
           list_all is_send sends \<and>
           prefix rest (SetOrderLevels # SendAllOrders # sends) \<and>
           (r = Returns () \<longrightarrow> rest = SetOrderLevels # SendAllOrders # sends)"
proof -
  note eq = refresh_all_orders_deleted [OF assms(1,2)]
  obtain r2 m2 where c: "check_order_fills h m1 = (r2, m2)"
    by (cases "check_order_fills h m1") auto
  show ?thesis
  proof (cases r2)
    case (Raises e)
    with eq c assms(3) have "es = [RefreshAllOrders, DeleteAllOrders sy True 1, CheckOrderFills]"
      and "r = Raises e" by simp_all
    with c Raises show ?thesis
      by (intro exI [of _ "[]"]) simp
  next
    case (Returns filled)
    let ?pre = "[RefreshAllOrders, DeleteAllOrders sy True 1, CheckOrderFills] @
                (if filled then [ProcessOrderFill] else [])"
    have pre: "(fst (check_order_fills h m1) = Returns True) = filled"
      using c Returns by simp
    obtain r3 m3 where p: "(if filled then process_order_fill h m2 else (Returns (), m2)) = (r3, m3)"
      by (cases "if filled then process_order_fill h m2 else (Returns (), m2)") auto
    show ?thesis
    proof (cases r3)
      case (Raises e)
      with eq c \<open>r2 = Returns filled\<close> p assms(3) have "es = ?pre @ []" and "r = Raises e"
        by simp_all
      then show ?thesis
        by (intro exI [of _ "[]"]) (simp add: pre)
    next
      case Returns3: (Returns u)
      obtain r4 m4 where l: "set_order_levels h m3 = (r4, m4)"
        by (cases "set_order_levels h m3") auto
      show ?thesis
      proof (cases r4)
        case (Raises e)
        with eq c \<open>r2 = Returns filled\<close> p Returns3 l assms(3)
        have "es = ?pre @ [SetOrderLevels]" and "r = Raises e"
          by simp_all
        then show ?thesis
          by (intro exI [of _ "[SetOrderLevels]"] exI [of _ "[]"]) (simp add: pre)
      next
        case Returns4: (Returns u')
        obtain r5 es5 m5 where sa: "send_all_orders h m4 = (r5, es5, m5)"
          by (cases "send_all_orders h m4") auto
        from send_all_orders_sends [OF sa] obtain sends where
          sends: "list_all is_send sends" "prefix es5 (SendAllOrders # sends)"
            "r5 = Returns () \<longrightarrow> es5 = SendAllOrders # sends"
          by blast
        from eq c \<open>r2 = Returns filled\<close> p Returns3 l Returns4 sa assms(3)
        have "es = ?pre @ SetOrderLevels # es5" and "r = r5"
          by simp_all
        with sends show ?thesis
          by (intro exI [of _ "SetOrderLevels # es5"] exI [of _ sends]) (simp add: pre)
      qed
    qed
  qed
qed

lemma refresh_all_orders_head:
  assumes "refresh_all_orders h m = (r, es, m')"
  shows "\<exists>rest. es = RefreshAllOrders # rest \<and> RefreshIndividualOrders \<notin> set rest"
proof (cases "lookup_symbol h m")
  case None
  with assms show ?thesis
    by (auto simp: refresh_all_orders_def and_then_def enter_def getattr_symbol_def)
next
  case (Some sy)
  obtain r1 m1 where d: "delete_all_orders h sy True 1 m = (r1, m1)"
    by (cases "delete_all_orders h sy True 1 m") auto
  show ?thesis
  proof (cases r1)
    case (Raises e)
    with assms Some d show ?thesis
      by (auto simp: refresh_all_orders_def and_then_def enter_def getattr_symbol_def call_def)
  next
    case (Returns ok)
    show ?thesis
    proof (cases ok)
      case False
      with Some d Returns assms show ?thesis
        by (auto simp: refresh_all_orders_def and_then_def enter_def getattr_symbol_def call_def
            raise_def)
    next
      case True
      with d Returns have d': "delete_all_orders h sy True 1 m = (Returns True, m1)"
        by simp
      from refresh_all_orders_trace [OF Some d' assms] obtain rest sends where
        es: "es = [RefreshAllOrders, DeleteAllOrders sy True 1, CheckOrderFills] @
                (if fst (check_order_fills h m1) = Returns True then [ProcessOrderFill] else []) @
                rest"
        and sends: "list_all is_send sends" "prefix rest (SetOrderLevels # SendAllOrders # sends)"
        by blast
      from sends(2) have "set rest \<subseteq> set (SetOrderLevels # SendAllOrders # sends)"
        by (rule set_mono_prefix)
      moreover have "RefreshIndividualOrders \<notin> set sends"
        using sends(1) by (auto simp: list_all_iff)
      ultimately have "RefreshIndividualOrders \<notin> set rest"
        by auto
      with es show ?thesis by simp
    qed
  qed
qed





lemma run_iteration_eq:
  assumes "order_refresh_needed h m = (Returns (ri, ra), m1)"
  shows "run_iteration h m =
     (if ra then
        (case refresh_all_orders h m1 of
           (Returns u, es, m2) \<Rightarrow> (Returns (False, False), OrderRefreshNeeded # es, m2)
         | (Raises e, es, m2) \<Rightarrow> (Raises e, OrderRefreshNeeded # es, m2))
      else if ri then
        (case refresh_individual_orders h m1 of
           (Returns u, m2) \<Rightarrow> (Returns (False, False), [OrderRefreshNeeded, RefreshIndividualOrders], m2)
         | (Raises e, m2) \<Rightarrow> (Raises e, [OrderRefreshNeeded, RefreshIndividualOrders], m2))
      else
        (case check_order_fills h m1 of
           (Raises e, m2) \<Rightarrow> (Raises e, [OrderRefreshNeeded, CheckOrderFills], m2)
         | (Returns False, m2) \<Rightarrow> (Returns (False, False), [OrderRefreshNeeded, CheckOrderFills], m2)
         | (Returns True, m2) \<Rightarrow>
             (case process_order_fill h m2 of
                (Returns u, m3) \<Rightarrow>
                  (Returns (False, False), [OrderRefreshNeeded, CheckOrderFills, ProcessOrderFill], m3)
              | (Raises e, m3) \<Rightarrow>
                  (Raises e, [OrderRefreshNeeded, CheckOrderFills, ProcessOrderFill], m3))))"
  using assms
  by (simp add: run_iteration_def and_then_def call_def return_def
      split: prod.splits outcome.splits bool.splits)








section \<open>Example runs\<close>

lemmas send_defs =
  send_all_orders_def send_iteration_def send_ask_def send_bid_def getitem_def call_def
  and_then_def enter_def return_def Let_def

lemma demo_send_keeps_levels: "send_keeps_levels (demo_hooks fl)"
  by (simp add: send_keeps_levels_def demo_hooks_def)

lemma demo_send_keeps_active: "send_keeps_active (demo_hooks fl)"
  by (simp add: send_keeps_active_def demo_hooks_def)

lemma demo_send_returns: "send_returns (demo_hooks fl)"
  by (simp add: send_returns_def demo_hooks_def)

lemma demo_hooks_keep_active: "hooks_keep_active (demo_hooks fl)"
  by (simp add: hooks_keep_active_def demo_send_keeps_active) (simp add: demo_hooks_def)


lemma demo_send_rejected:
  "send_all_orders (demo_hooks fl) demo_rejected =
     (Returns (),
      [SendAllOrders, SendLimitOrder Ask 0 False, SendLimitOrder Bid 0 False,
       SendLimitOrder Ask 1 False],
      demo_rejected\<lparr>active_asks := [(0, ''a0''), (1, '''')], active_bids := [(0, '''')]\<rparr>)"
  by (simp add: send_defs demo_rejected_def demo_mm_def init_def demo_hooks_def)

lemma demo_before_ask:
  "before_ask (demo_hooks fl) 1 demo_rejected =
     (Returns (), [SendLimitOrder Ask 0 False, SendLimitOrder Bid 0 False],
      demo_rejected\<lparr>active_asks := [(0, ''a0'')], active_bids := [(0, '''')]\<rparr>)"
  by (simp add: before_ask_def send_defs demo_rejected_def demo_mm_def init_def demo_hooks_def)

lemma demo_before_bid:
  "before_bid (demo_hooks fl) 0 demo_rejected =
     (Returns (), [SendLimitOrder Ask 0 False], demo_rejected\<lparr>active_asks := [(0, ''a0'')]\<rparr>)"
  by (simp add: before_bid_def send_defs demo_rejected_def demo_mm_def init_def demo_hooks_def)

lemma demo_send_two_levels:
  "send_all_orders (demo_hooks fl) demo_two_levels =
     (Returns (), [SendAllOrders, SendLimitOrder Ask 0 False, SendLimitOrder Ask 1 False],
      demo_sent)"
  by (simp add: send_defs demo_sent_def demo_two_levels_def demo_mm_def init_def demo_hooks_def)

lemma demo_refresh_sent:
  "refresh_all_orders (demo_hooks fl) demo_sent =
     (Returns (),
      [RefreshAllOrders, DeleteAllOrders ''BTC-USD'' True 1, CheckOrderFills, SetOrderLevels,
       SendAllOrders, SendLimitOrder Ask 0 False],
      demo_refreshed)"
  by (simp add: refresh_all_orders_def getattr_symbol_def lookup_symbol_def raise_def send_defs
      demo_refreshed_def
      demo_sent_def demo_two_levels_def demo_mm_def init_def demo_hooks_def)

lemma demo_send_mixed:
  "send_all_orders (demo_hooks fl) demo_mixed =
     (Returns (),
      [SendAllOrders, SendLimitOrder Ask 0 False, SendLimitOrder Bid 0 False,
       SendLimitOrder Ask 1 False, SendLimitOrder Ask 2 False],
      demo_mixed\<lparr>active_asks := [(0, ''a0''), (1, ''a1''), (2, ''a2'')],
                 active_bids := [(0, ''b0'')]\<rparr>)"
  by (simp add: send_defs demo_mixed_def demo_mm_def init_def demo_hooks_def)

lemma demo_send_no_bids:
  "send_all_orders (demo_hooks fl) demo_no_bids =
     (Returns (), [SendAllOrders, SendLimitOrder Ask 0 False],
      demo_no_bids\<lparr>active_asks := [(0, ''a0'')]\<rparr>)"
  by (simp add: send_defs demo_no_bids_def demo_mm_def init_def demo_hooks_def)

lemma demo_send_sparse:
  "send_all_orders (demo_hooks fl) demo_sparse =
     (Raises (KeyError 1), [SendAllOrders, SendLimitOrder Ask 0 False],
      demo_sparse\<lparr>active_asks := [(0, ''a0'')]\<rparr>)"
  by (simp add: send_defs demo_sparse_def demo_mm_def init_def demo_hooks_def)

lemma demo_refresh:
  "refresh_all_orders (demo_hooks fl) (demo_mm (True, True)) =
     (Returns (),
      [RefreshAllOrders, DeleteAllOrders ''BTC-USD'' True 1, CheckOrderFills, ProcessOrderFill,
       SetOrderLevels, SendAllOrders, SendLimitOrder Ask 0 False],
      (demo_mm (True, True))
        \<lparr>ask_levels := [(0, ''a0'')], bid_levels := [], active_asks := [(0, ''a0'')]\<rparr>)"
  by (simp add: refresh_all_orders_def and_then_def enter_def getattr_symbol_def lookup_symbol_def call_def
      raise_def return_def send_all_orders_def send_iteration_def send_ask_def send_bid_def
      getitem_def demo_hooks_def demo_mm_def init_def Let_def)

lemma demo_class_refresh:
  "refresh_all_orders demo_class_hooks (init ''BTC'' ''USD'' ''BTC-USD'' (True, False)) =
     (Returns (),
      [RefreshAllOrders, DeleteAllOrders ''BTC-USD'' True 1, CheckOrderFills, SetOrderLevels,
       SendAllOrders, SendLimitOrder Ask 0 False],
      (init ''BTC'' ''USD'' ''BTC-USD'' (True, False))
        \<lparr>ask_levels := [(0, ''a0'')], bid_levels := [], active_asks := [(0, ''a0'')]\<rparr>)"
  by (simp add: refresh_all_orders_def getattr_symbol_def lookup_symbol_def raise_def send_defs
      demo_class_hooks_def init_def demo_hooks_def)

lemma demo_iteration_all:
  "run_iteration (demo_hooks (True, True)) (demo_mm (True, True)) =
     (Returns (False, False),
      [OrderRefreshNeeded, RefreshAllOrders, DeleteAllOrders ''BTC-USD'' True 1, CheckOrderFills,
       ProcessOrderFill, SetOrderLevels, SendAllOrders, SendLimitOrder Ask 0 False],
      (demo_mm (True, True))
        \<lparr>ask_levels := [(0, ''a0'')], bid_levels := [], active_asks := [(0, ''a0'')]\<rparr>)"
proof -
  have "order_refresh_needed (demo_hooks (True, True)) (demo_mm (True, True)) =
      (Returns (True, True), demo_mm (True, True))"
    by (simp add: demo_hooks_def)
  from run_iteration_eq [OF this] show ?thesis
    by (simp add: demo_refresh)
qed

lemma demo_iteration_none:
  "run_iteration (demo_hooks (False, False)) (demo_mm (True, True)) =
     (Returns (False, False), [OrderRefreshNeeded, CheckOrderFills, ProcessOrderFill],
      demo_mm (True, True))"
proof -
  have "order_refresh_needed (demo_hooks (False, False)) (demo_mm (True, True)) =
      (Returns (False, False), demo_mm (True, True))"
    by (simp add: demo_hooks_def)
  from run_iteration_eq [OF this] show ?thesis
    by (simp add: demo_hooks_def demo_mm_def init_def)
qed


section \<open>The claims\<close>

subsection \<open>Submission\<close>

text \<open>
  Claim C1, amended. \<^verbatim>\<open>send_all_orders\<close> stores whatever \<^verbatim>\<open>send_limit_order\<close> returns.
  When the call that submits the ask (the bid) of level \<open>i\<close> returns the empty string, then
  after \<^verbatim>\<open>send_all_orders\<close> has returned, key \<open>i\<close> is present in \<^verbatim>\<open>active_asks\<close>
  (\<^verbatim>\<open>active_bids\<close>) and is bound to the empty string. The call in question is the one made on
  the instance \<open>ma\<close> that the preceding part of the round leaves; the primitive is taken to
  leave the two dictionaries of active orders alone.
\<close>
theorem failed_send_leaves_empty_handle:
  assumes "send_keeps_active h"
    and "send_all_orders h m = (Returns (), es, m')"
  shows "(i < length (ask_levels m) \<and> before_ask h i m = (Returns (), es0, ma) \<and>
          map_of (ask_levels ma) (int i) = Some kw \<and>
          send_limit_order h kw False ma = (Returns '''', mb) \<longrightarrow>
            map_of (active_asks m') (int i) = Some '''' \<and> int i \<in> keys (active_asks m')) \<and>
         (i < length (bid_levels m) \<and> before_bid h i m = (Returns (), es0, ma) \<and>
          map_of (bid_levels ma) (int i) = Some kw \<and>
          send_limit_order h kw False ma = (Returns '''', mb) \<longrightarrow>
            map_of (active_bids m') (int i) = Some '''' \<and> int i \<in> keys (active_bids m'))"
proof (intro conjI impI; elim conjE)
  assume "i < length (ask_levels m)" "before_ask h i m = (Returns (), es0, ma)"
    "map_of (ask_levels ma) (int i) = Some kw" "send_limit_order h kw False ma = (Returns '''', mb)"
  from failed_ask [OF assms this] show a: "map_of (active_asks m') (int i) = Some ''''" .
  from map_of_keys [OF a] show "int i \<in> keys (active_asks m')" .
next
  assume "i < length (bid_levels m)" "before_bid h i m = (Returns (), es0, ma)"
    "map_of (bid_levels ma) (int i) = Some kw" "send_limit_order h kw False ma = (Returns '''', mb)"
  from failed_bid [OF assms this] show b: "map_of (active_bids m') (int i) = Some ''''" .
  from map_of_keys [OF b] show "int i \<in> keys (active_bids m')" .
qed

theorem failed_send_leaves_empty_handle_witness:
  "send_keeps_active (demo_hooks (False, False)) \<and>
   send_all_orders (demo_hooks (False, False)) demo_rejected =
     (Returns (),
      [SendAllOrders, SendLimitOrder Ask 0 False, SendLimitOrder Bid 0 False,
       SendLimitOrder Ask 1 False],
      demo_rejected\<lparr>active_asks := [(0, ''a0''), (1, '''')], active_bids := [(0, '''')]\<rparr>) \<and>
   1 < length (ask_levels demo_rejected) \<and>
   before_ask (demo_hooks (False, False)) 1 demo_rejected =
     (Returns (), [SendLimitOrder Ask 0 False, SendLimitOrder Bid 0 False],
      demo_rejected\<lparr>active_asks := [(0, ''a0'')], active_bids := [(0, '''')]\<rparr>) \<and>
   map_of (ask_levels
     (demo_rejected\<lparr>active_asks := [(0, ''a0'')], active_bids := [(0, '''')]\<rparr>)) 1 =
     Some ''rejected'' \<and>
   send_limit_order (demo_hooks (False, False)) ''rejected'' False
     (demo_rejected\<lparr>active_asks := [(0, ''a0'')], active_bids := [(0, '''')]\<rparr>) =
     (Returns '''', demo_rejected\<lparr>active_asks := [(0, ''a0'')], active_bids := [(0, '''')]\<rparr>) \<and>
   map_of (active_asks
     (demo_rejected\<lparr>active_asks := [(0, ''a0''), (1, '''')], active_bids := [(0, '''')]\<rparr>)) 1 =
     Some '''' \<and>
   0 < length (bid_levels demo_rejected) \<and>
   before_bid (demo_hooks (False, False)) 0 demo_rejected =
     (Returns (), [SendLimitOrder Ask 0 False], demo_rejected\<lparr>active_asks := [(0, ''a0'')]\<rparr>) \<and>
   map_of (bid_levels (demo_rejected\<lparr>active_asks := [(0, ''a0'')]\<rparr>)) 0 = Some ''rejected'' \<and>
   send_limit_order (demo_hooks (False, False)) ''rejected'' False
     (demo_rejected\<lparr>active_asks := [(0, ''a0'')]\<rparr>) =
     (Returns '''', demo_rejected\<lparr>active_asks := [(0, ''a0'')]\<rparr>) \<and>
   map_of (active_bids
     (demo_rejected\<lparr>active_asks := [(0, ''a0''), (1, '''')], active_bids := [(0, '''')]\<rparr>)) 0 =
     Some ''''"
proof -
  let ?h = "demo_hooks (False, False)"
  let ?ma = "demo_rejected\<lparr>active_asks := [(0, ''a0'')], active_bids := [(0, '''')]\<rparr>"
  let ?mb = "demo_rejected\<lparr>active_asks := [(0, ''a0'')]\<rparr>"
  have l: "1 < length (ask_levels demo_rejected)" "0 < length (bid_levels demo_rejected)"
    "map_of (ask_levels ?ma) 1 = Some ''rejected''"
    "map_of (bid_levels ?mb) 0 = Some ''rejected''"
    by (simp_all add: demo_rejected_def)
  have f: "send_limit_order ?h ''rejected'' False ?ma = (Returns '''', ?ma)"
    "send_limit_order ?h ''rejected'' False ?mb = (Returns '''', ?mb)"
    by (simp_all add: demo_hooks_def)
  note t = failed_send_leaves_empty_handle
    [OF demo_send_keeps_active [of "(False, False)"] demo_send_rejected [of "(False, False)"]]
  from t [where i = 1 and ?es0.0 = "[SendLimitOrder Ask 0 False, SendLimitOrder Bid 0 False]"
      and ma = ?ma and kw = "''rejected''" and mb = ?ma] l f demo_before_ask [of "(False, False)"]
  have a: "map_of (active_asks
     (demo_rejected\<lparr>active_asks := [(0, ''a0''), (1, '''')], active_bids := [(0, '''')]\<rparr>)) 1 =
     Some ''''"
    by simp
  from t [where i = 0 and ?es0.0 = "[SendLimitOrder Ask 0 False]"
      and ma = ?mb and kw = "''rejected''" and mb = ?mb]
    l f demo_before_bid [of "(False, False)"]
  have b: "map_of (active_bids
     (demo_rejected\<lparr>active_asks := [(0, ''a0''), (1, '''')], active_bids := [(0, '''')]\<rparr>)) 0 =
     Some ''''"
    by simp
  show ?thesis
    by (intro conjI demo_send_keeps_active demo_send_rejected demo_before_ask demo_before_bid
        l f a b)
qed

text \<open>
  The claim as first stated asks for key \<open>i\<close> to be absent after a failed submission. In the
  example the exchange rejects ask level 1, the call returns the empty string, and key 1 is
  in \<^verbatim>\<open>active_asks\<close> when \<^verbatim>\<open>send_all_orders\<close> is back.
\<close>
theorem failed_send_phantom_handle:
  "fst (send_limit_order (demo_hooks (False, False)) ''rejected'' False demo_rejected) =
     Returns '''' \<and>
   map_of (ask_levels demo_rejected) 1 = Some ''rejected'' \<and>
   fst (send_all_orders (demo_hooks (False, False)) demo_rejected) = Returns () \<and>
   1 \<in> keys (active_asks (snd (snd (send_all_orders (demo_hooks (False, False)) demo_rejected)))) \<and>
   map_of (active_asks (snd (snd (send_all_orders (demo_hooks (False, False)) demo_rejected)))) 1 =
     Some ''''"
  by (simp add: demo_send_rejected keys_def) (simp add: demo_hooks_def demo_rejected_def)

text \<open>
  Claim C9, amended. For every pair of level dictionaries, \<^verbatim>\<open>send_all_orders\<close> runs, in
  order and up to the first exception, the submissions of
  \<open>max (len ask_levels) (len bid_levels)\<close> iterations, with the ask of level \<open>i\<close> in
  iteration \<open>i\<close> exactly when \<open>i\<close> is below the ask count and the bid exactly when it is
  below the bid count: three asks and one bid give three iterations with a bid in iteration 0
  only. When both dictionaries have exactly the keys \<open>0, ..., count - 1\<close> and the primitive
  returns and leaves them alone, the whole round is made and no error is raised. With no
  bid level no bid is submitted and \<^verbatim>\<open>active_bids\<close> is left as it was.
\<close>
theorem send_all_orders_iterations:
  assumes "send_all_orders h m = (r, es, m')"
  shows "send_all_orders h m =
           and_then (enter SendAllOrders) (\<lambda>_.
             in_order (map (submit h)
               (submissions (length (ask_levels m)) (length (bid_levels m))))) m \<and>
         prefix es (all_events (length (ask_levels m)) (length (bid_levels m))) \<and>
         (send_keeps_levels h \<and> send_returns h \<and>
          exact_keys (ask_levels m) \<and> exact_keys (bid_levels m) \<longrightarrow>
            r = Returns () \<and> es = all_events (length (ask_levels m)) (length (bid_levels m))) \<and>
         submissions 3 1 = [(Ask, 0), (Bid, 0), (Ask, 1), (Ask, 2)] \<and>
         all_events 3 1 =
           [SendAllOrders, SendLimitOrder Ask 0 False, SendLimitOrder Bid 0 False,
            SendLimitOrder Ask 1 False, SendLimitOrder Ask 2 False] \<and>
         (bid_levels m = [] \<longrightarrow>
            (\<forall>i. (Bid, i) \<notin> set (submissions (length (ask_levels m)) (length (bid_levels m)))) \<and>
            (\<forall>i v. SendLimitOrder Bid i v \<notin> set es) \<and>
            (send_keeps_active h \<longrightarrow> active_bids m' = active_bids m))"
proof -
  let ?na = "length (ask_levels m)" and ?nb = "length (bid_levels m)"
  note tr = send_all_orders_trace [OF assms]
  from assms obtain es1 where
    lp: "send_loop h ?na ?nb [0..<max ?na ?nb] m = (r, es1, m')"
    by (rule send_all_orders_loop)
  have c3: "r = Returns () \<and> es = all_events ?na ?nb"
    if "send_keeps_levels h" "send_returns h"
      "exact_keys (ask_levels m)" "exact_keys (bid_levels m)"
  proof -
    from that(3,4) have "\<not> (\<exists>i. missing m i)"
      by (simp add: missing_iff)
    then have "\<not> (\<exists>j \<in> set [0..<max ?na ?nb]. level_missing ?na ?nb m j)"
      by (auto simp: missing_level_missing)
    with send_loop_outcome [OF that(1,2) lp] have "r = Returns ()" by simp
    with tr show ?thesis by simp
  qed
  have c4: "\<forall>i. (Bid, i) \<notin> set (submissions ?na ?nb)" if "bid_levels m = []"
    using bid_submission_bound [of _ ?na ?nb] that by auto
  have c5: "\<forall>i v. SendLimitOrder Bid i v \<notin> set es" if "bid_levels m = []"
  proof (intro allI notI)
    fix i v
    assume "SendLimitOrder Bid i v \<in> set es"
    with tr have "SendLimitOrder Bid i v \<in> set (all_events ?na ?nb)"
      using set_mono_prefix by blast
    from bid_event_bound [OF this] that show False by simp
  qed
  have c6: "active_bids m' = active_bids m" if "bid_levels m = []" "send_keeps_active h"
    using send_loop_others [OF that(2) lp, of 0] that(1) by simp
  from tr c3 c4 c5 c6 show ?thesis
    by (intro conjI impI send_all_orders_in_order submissions_3_1 all_events_3_1) blast+
qed

theorem send_all_orders_iterations_witness:
  "send_all_orders (demo_hooks (False, False)) demo_mixed =
     (Returns (),
      [SendAllOrders, SendLimitOrder Ask 0 False, SendLimitOrder Bid 0 False,
       SendLimitOrder Ask 1 False, SendLimitOrder Ask 2 False],
      demo_mixed\<lparr>active_asks := [(0, ''a0''), (1, ''a1''), (2, ''a2'')],
                 active_bids := [(0, ''b0'')]\<rparr>) \<and>
   send_keeps_levels (demo_hooks (False, False)) \<and>
   send_returns (demo_hooks (False, False)) \<and>
   send_keeps_active (demo_hooks (False, False)) \<and>
   exact_keys (ask_levels demo_mixed) \<and> exact_keys (bid_levels demo_mixed) \<and>
   length (ask_levels demo_mixed) = 3 \<and> length (bid_levels demo_mixed) = 1 \<and>
   all_events 3 1 =
     [SendAllOrders, SendLimitOrder Ask 0 False, SendLimitOrder Bid 0 False,
      SendLimitOrder Ask 1 False, SendLimitOrder Ask 2 False] \<and>
   send_all_orders (demo_hooks (False, False)) demo_no_bids =
     (Returns (), [SendAllOrders, SendLimitOrder Ask 0 False],
      demo_no_bids\<lparr>active_asks := [(0, ''a0'')]\<rparr>) \<and>
   bid_levels demo_no_bids = [] \<and>
   active_bids (demo_no_bids\<lparr>active_asks := [(0, ''a0'')]\<rparr>) = active_bids demo_no_bids \<and>
   (\<forall>i v. SendLimitOrder Bid i v \<notin> set [SendAllOrders, SendLimitOrder Ask 0 False])"
proof -
  have l: "length (ask_levels demo_mixed) = 3" "length (bid_levels demo_mixed) = 1"
    by (simp_all add: demo_mixed_def)
  have n: "bid_levels demo_no_bids = []"
    by (simp add: demo_no_bids_def demo_mm_def init_def)
  have e: "exact_keys (ask_levels demo_mixed)" "exact_keys (bid_levels demo_mixed)"
    by (simp_all add: exact_keys_iff demo_mixed_def less_Suc_eq numeral_3_eq_3)
  note t1 = send_all_orders_iterations [OF demo_send_mixed [of "(False, False)"]]
  note t2 = send_all_orders_iterations [OF demo_send_no_bids [of "(False, False)"]]
  from t1 have a: "all_events 3 1 =
      [SendAllOrders, SendLimitOrder Ask 0 False, SendLimitOrder Bid 0 False,
       SendLimitOrder Ask 1 False, SendLimitOrder Ask 2 False]"
    by blast
  from t2 n have b: "\<forall>i v. SendLimitOrder Bid i v \<notin> set [SendAllOrders, SendLimitOrder Ask 0 False]"
    by blast
  from t2 n demo_send_keeps_active
  have c: "active_bids (demo_no_bids\<lparr>active_asks := [(0, ''a0'')]\<rparr>) = active_bids demo_no_bids"
    by blast
  show ?thesis
    by (intro conjI demo_send_mixed demo_send_no_bids demo_send_keeps_active
        demo_send_keeps_levels demo_send_returns l n e a b c)
qed

text \<open>
  The claim as first stated has the round completed, and no error raised with an empty bid
  side, for every pair of level dictionaries. In the example the bid side is empty and the ask
  side has the keys 0 and 2: the second of the two iterations raises the key error of index 1
  before any submission.
\<close>
theorem empty_bid_side_raises:
  "bid_levels demo_sparse = [] \<and>
   max (length (ask_levels demo_sparse)) (length (bid_levels demo_sparse)) = 2 \<and>
   send_all_orders (demo_hooks (False, False)) demo_sparse =
     (Raises (KeyError 1), [SendAllOrders, SendLimitOrder Ask 0 False],
      demo_sparse\<lparr>active_asks := [(0, ''a0'')]\<rparr>)"
  by (simp add: demo_send_sparse) (simp add: demo_sparse_def demo_mm_def init_def)

text \<open>
  Claim C10. With a submission primitive that leaves the level dictionaries alone,
  \<^verbatim>\<open>send_all_orders\<close> returns only if the keys of each level dictionary are exactly
  \<open>0, ..., count - 1\<close>. If moreover the primitive always returns, then whenever that
  fails, the method raises the key error of an index that is below a side's count and missing
  from that side's dictionary.
\<close>
theorem send_all_orders_keys:
  assumes "send_keeps_levels h"
    and "send_all_orders h m = (r, es, m')"
  shows "(r = Returns () \<longrightarrow> exact_keys (ask_levels m) \<and> exact_keys (bid_levels m)) \<and>
         (send_returns h \<longrightarrow> \<not> (exact_keys (ask_levels m) \<and> exact_keys (bid_levels m)) \<longrightarrow>
            (\<exists>j. missing m j \<and> r = Raises (KeyError (int j))))"
proof (intro conjI impI)
  let ?na = "length (ask_levels m)" and ?nb = "length (bid_levels m)"
  from assms(2) obtain es1 where lp: "send_loop h ?na ?nb [0..<max ?na ?nb] m = (r, es1, m')"
    by (rule send_all_orders_loop)
  {
    assume "r = Returns ()"
    with lp send_loop_returns [OF assms(1)] have "\<And>j. j < max ?na ?nb \<Longrightarrow> \<not> missing m j"
      by (fastforce simp: missing_level_missing)
    then have "\<not> (\<exists>i. missing m i)"
      using missing_upt by fastforce
    then show "exact_keys (ask_levels m)" and "exact_keys (bid_levels m)"
      by (simp_all add: missing_iff)
  }
  {
    assume "send_returns h" and "\<not> (exact_keys (ask_levels m) \<and> exact_keys (bid_levels m))"
    then obtain i where "missing m i"
      using missing_iff by blast
    with missing_upt [of m i] have "\<exists>j \<in> set [0..<max ?na ?nb]. level_missing ?na ?nb m j"
      unfolding missing_level_missing by blast
    with send_loop_outcome [OF assms(1) \<open>send_returns h\<close> lp]
    show "\<exists>j. missing m j \<and> r = Raises (KeyError (int j))"
      by (auto simp: missing_level_missing)
  }
qed

theorem send_all_orders_keys_witness:
  "send_keeps_levels (demo_hooks (False, False)) \<and>
   send_returns (demo_hooks (False, False)) \<and>
   send_all_orders (demo_hooks (False, False)) demo_mixed =
     (Returns (),
      [SendAllOrders, SendLimitOrder Ask 0 False, SendLimitOrder Bid 0 False,
       SendLimitOrder Ask 1 False, SendLimitOrder Ask 2 False],
      demo_mixed\<lparr>active_asks := [(0, ''a0''), (1, ''a1''), (2, ''a2'')],
                 active_bids := [(0, ''b0'')]\<rparr>) \<and>
   exact_keys (ask_levels demo_mixed) \<and> exact_keys (bid_levels demo_mixed) \<and>
   send_all_orders (demo_hooks (False, False)) demo_sparse =
     (Raises (KeyError 1), [SendAllOrders, SendLimitOrder Ask 0 False],
      demo_sparse\<lparr>active_asks := [(0, ''a0'')]\<rparr>) \<and>
   \<not> (exact_keys (ask_levels demo_sparse) \<and> exact_keys (bid_levels demo_sparse)) \<and>
   missing demo_sparse 1 \<and>
   (\<exists>j. missing demo_sparse j \<and>
      (Raises (KeyError 1) :: unit outcome) = Raises (KeyError (int j)))"
proof -
  have m: "missing demo_sparse 1"
    by (simp add: missing_def level_missing_def demo_sparse_def)
  then have x: "\<not> (exact_keys (ask_levels demo_sparse) \<and> exact_keys (bid_levels demo_sparse))"
    using missing_iff by blast
  note t1 = send_all_orders_keys
    [OF demo_send_keeps_levels demo_send_mixed [of "(False, False)"]]
  note t2 = send_all_orders_keys
    [OF demo_send_keeps_levels demo_send_sparse [of "(False, False)"]]
  from t1 have a: "exact_keys (ask_levels demo_mixed)" "exact_keys (bid_levels demo_mixed)"
    by simp_all
  from t2 x demo_send_returns have k: "\<exists>j. missing demo_sparse j \<and>
      (Raises (KeyError 1) :: unit outcome) = Raises (KeyError (int j))"
    by blast
  show ?thesis
    by (intro conjI demo_send_keeps_levels demo_send_returns demo_send_mixed demo_send_sparse
        a x m k)
qed

subsection \<open>Bulk refresh\<close>



text \<open>
  Claim C3. The constructor assigns no attribute \<^verbatim>\<open>symbol\<close>, so on an instance whose
  attributes are those of \<^verbatim>\<open>__init__\<close> the lookup \<^verbatim>\<open>self.symbol\<close> finds it neither on the
  instance nor, the base class having none, on the class. Whenever the lookup finds nothing,
  \<^verbatim>\<open>refresh_all_orders\<close> ends with the attribute error: the only event is its own entry, so
  \<^verbatim>\<open>delete_all_orders\<close> is never invoked, and the instance, with its four dictionaries, is
  left as it was. (When the lookup finds a symbol, on the instance or on a child class, the
  method goes on to call \<^verbatim>\<open>delete_all_orders\<close> with it.)
\<close>
theorem refresh_all_orders_without_symbol:
  "symbol (init b q s x :: ('k, 'w) mm) = None \<and>
   (class_symbol h = None \<longrightarrow> lookup_symbol h (init b q s x :: ('k, 'w) mm) = None) \<and>
   (lookup_symbol h (m :: ('k, 'w) mm) = None \<longrightarrow>
      refresh_all_orders h m = (Raises (AttributeError ''symbol''), [RefreshAllOrders], m)) \<and>
   (lookup_symbol h m = Some sy \<longrightarrow>
      take 2 (fst (snd (refresh_all_orders h m))) = [RefreshAllOrders, DeleteAllOrders sy True 1])"
proof (intro conjI impI)
  show "symbol (init b q s x :: ('k, 'w) mm) = None"
    by (simp add: init_def)
  show "lookup_symbol h (init b q s x :: ('k, 'w) mm) = None" if "class_symbol h = None"
    using that by (simp add: lookup_symbol_def init_def)
  show "refresh_all_orders h m = (Raises (AttributeError ''symbol''), [RefreshAllOrders], m)"
    if "lookup_symbol h m = None"
    using that by (simp add: refresh_all_orders_def and_then_def enter_def getattr_symbol_def)
  show "take 2 (fst (snd (refresh_all_orders h m))) = [RefreshAllOrders, DeleteAllOrders sy True 1]"
    if sy: "lookup_symbol h m = Some sy"
  proof -
    obtain r1 m1 where d: "delete_all_orders h sy True 1 m = (r1, m1)"
      by (cases "delete_all_orders h sy True 1 m") auto
    show ?thesis
    proof (cases "r1 = Returns True")
      case True
      obtain r es m' where r: "refresh_all_orders h m = (r, es, m')"
        by (cases "refresh_all_orders h m") auto
      from refresh_all_orders_trace [OF sy d [unfolded True] r] r show ?thesis
        by auto
    next
      case False
      then have "refresh_all_orders h m =
          ((case r1 of Raises e \<Rightarrow> Raises e
            | Returns b \<Rightarrow> Raises (Exception ''Error Deleting All Orders in refresh_all_orders.'')),
           [RefreshAllOrders, DeleteAllOrders sy True 1], m1)"
        using sy d
        by (cases r1)
          (simp_all add: refresh_all_orders_def and_then_def enter_def getattr_symbol_def call_def
            raise_def)
      then show ?thesis by simp
    qed
  qed
qed

theorem refresh_all_orders_without_symbol_witness:
  "class_symbol (demo_hooks (False, True)) = None \<and>
   lookup_symbol (demo_hooks (False, True))
     (init ''BTC'' ''USD'' ''BTC-USD'' (True, False) :: (string, bool \<times> bool) mm) = None \<and>
   refresh_all_orders (demo_hooks (False, True)) (init ''BTC'' ''USD'' ''BTC-USD'' (True, False)) =
     (Raises (AttributeError ''symbol''), [RefreshAllOrders],
      init ''BTC'' ''USD'' ''BTC-USD'' (True, False)) \<and>
   lookup_symbol demo_class_hooks
     (init ''BTC'' ''USD'' ''BTC-USD'' (True, False) :: (string, bool \<times> bool) mm) =
     Some ''BTC-USD'' \<and>
   take 2 (fst (snd (refresh_all_orders demo_class_hooks
     (init ''BTC'' ''USD'' ''BTC-USD'' (True, False))))) =
     [RefreshAllOrders, DeleteAllOrders ''BTC-USD'' True 1]"
proof -
  let ?m = "init ''BTC'' ''USD'' ''BTC-USD'' (True, False) :: (string, bool \<times> bool) mm"
  have c: "class_symbol (demo_hooks (False, True)) = None"
    by (simp add: demo_hooks_def)
  have s: "lookup_symbol demo_class_hooks ?m = Some ''BTC-USD''"
    by (simp add: lookup_symbol_def demo_class_hooks_def init_def)
  note t1 = refresh_all_orders_without_symbol
    [where b = "''BTC''" and q = "''USD''" and s = "''BTC-USD''" and x = "(True, False)"
      and h = "demo_hooks (False, True)" and m = ?m]
  note t2 = refresh_all_orders_without_symbol
    [where b = "''BTC''" and q = "''USD''" and s = "''BTC-USD''" and x = "(True, False)"
      and h = demo_class_hooks and m = ?m and sy = "''BTC-USD''"]
  from t1 c have a: "lookup_symbol (demo_hooks (False, True)) ?m = None"
    "refresh_all_orders (demo_hooks (False, True)) ?m =
       (Raises (AttributeError ''symbol''), [RefreshAllOrders], ?m)"
    by simp_all
  from t2 s have b: "take 2 (fst (snd (refresh_all_orders demo_class_hooks ?m))) =
      [RefreshAllOrders, DeleteAllOrders ''BTC-USD'' True 1]"
    by simp
  show ?thesis
    by (intro conjI c a s b)
qed

text \<open>
  Claim C4. When the bulk cancellation succeeds, \<^verbatim>\<open>refresh_all_orders\<close> is, in this order:
  the fill check on the instance the cancellation left; \<^verbatim>\<open>process_order_fill\<close>, exactly when
  the check reported fills, on the instance the check left; and only then
  \<^verbatim>\<open>set_order_levels\<close> and \<^verbatim>\<open>send_all_orders\<close>, each on the instance its predecessor left.
  The equation gives the outcome, the events and the final instance in every case, an
  exception ending the sequence where it is raised; the events are listed once more after it.
\<close>
theorem refresh_all_orders_order:
  assumes "lookup_symbol h m = Some sy"
    and "delete_all_orders h sy True 1 m = (Returns True, m1)"
  shows "refresh_all_orders h m =
           (case check_order_fills h m1 of
              (Raises e, m2) \<Rightarrow>
                (Raises e, [RefreshAllOrders, DeleteAllOrders sy True 1, CheckOrderFills], m2)
            | (Returns filled, m2) \<Rightarrow>
                (case (if filled then process_order_fill h m2 else (Returns (), m2)) of
                   (Raises e, m3) \<Rightarrow>
                     (Raises e, [RefreshAllOrders, DeleteAllOrders sy True 1, CheckOrderFills] @
                        (if filled then [ProcessOrderFill] else []), m3)
                 | (Returns u, m3) \<Rightarrow>
                     (case set_order_levels h m3 of
                        (Raises e, m4) \<Rightarrow>
                          (Raises e, [RefreshAllOrders, DeleteAllOrders sy True 1, CheckOrderFills] @
                             (if filled then [ProcessOrderFill] else []) @ [SetOrderLevels], m4)
                      | (Returns u, m4) \<Rightarrow>
                          (case send_all_orders h m4 of (r, es, m5) \<Rightarrow>
                             (r, [RefreshAllOrders, DeleteAllOrders sy True 1, CheckOrderFills] @
                                 (if filled then [ProcessOrderFill] else []) @ [SetOrderLevels] @ es,
                              m5))))) \<and>
         (\<exists>rest sends.
            fst (snd (refresh_all_orders h m)) =
              [RefreshAllOrders, DeleteAllOrders sy True 1, CheckOrderFills] @
              (if fst (check_order_fills h m1) = Returns True then [ProcessOrderFill] else []) @
              rest \<and>
            list_all is_send sends \<and>
            prefix rest (SetOrderLevels # SendAllOrders # sends) \<and>
            (fst (refresh_all_orders h m) = Returns () \<longrightarrow>
               rest = SetOrderLevels # SendAllOrders # sends))"
proof -
  obtain r es m' where r: "refresh_all_orders h m = (r, es, m')"
    by (cases "refresh_all_orders h m") auto
  have f: "fst (snd (refresh_all_orders h m)) = es" "fst (refresh_all_orders h m) = r"
    using r by simp_all
  show ?thesis
    unfolding f by (rule conjI [OF refresh_all_orders_deleted [OF assms]
      refresh_all_orders_trace [OF assms r]])
qed

theorem refresh_all_orders_order_witness:
  "lookup_symbol (demo_hooks (False, True)) (demo_mm (True, True)) = Some ''BTC-USD'' \<and>
   delete_all_orders (demo_hooks (False, True)) ''BTC-USD'' True 1 (demo_mm (True, True)) =
     (Returns True, demo_mm (True, True)) \<and>
   check_order_fills (demo_hooks (False, True)) (demo_mm (True, True)) =
     (Returns True, demo_mm (True, True)) \<and>
   refresh_all_orders (demo_hooks (False, True)) (demo_mm (True, True)) =
     (Returns (),
      [RefreshAllOrders, DeleteAllOrders ''BTC-USD'' True 1, CheckOrderFills, ProcessOrderFill,
       SetOrderLevels, SendAllOrders, SendLimitOrder Ask 0 False],
      (demo_mm (True, True))
        \<lparr>ask_levels := [(0, ''a0'')], bid_levels := [], active_asks := [(0, ''a0'')]\<rparr>) \<and>
   (\<exists>rest sends.
      [RefreshAllOrders, DeleteAllOrders ''BTC-USD'' True 1, CheckOrderFills, ProcessOrderFill,
       SetOrderLevels, SendAllOrders, SendLimitOrder Ask 0 False] =
        [RefreshAllOrders, DeleteAllOrders ''BTC-USD'' True 1, CheckOrderFills, ProcessOrderFill] @
        rest \<and>
      list_all is_send sends \<and>
      rest = SetOrderLevels # SendAllOrders # sends)"
proof -
  have s: "lookup_symbol (demo_hooks (False, True)) (demo_mm (True, True)) = Some ''BTC-USD''"
    by (simp add: lookup_symbol_def demo_mm_def)
  have d: "delete_all_orders (demo_hooks (False, True)) ''BTC-USD'' True 1 (demo_mm (True, True)) =
      (Returns True, demo_mm (True, True))"
    by (simp add: demo_hooks_def demo_mm_def init_def)
  have c: "check_order_fills (demo_hooks (False, True)) (demo_mm (True, True)) =
      (Returns True, demo_mm (True, True))"
    by (simp add: demo_hooks_def demo_mm_def init_def)
  from refresh_all_orders_order [OF s d] have
    "\<exists>rest sends.
      fst (snd (refresh_all_orders (demo_hooks (False, True)) (demo_mm (True, True)))) =
        [RefreshAllOrders, DeleteAllOrders ''BTC-USD'' True 1, CheckOrderFills] @
        (if fst (check_order_fills (demo_hooks (False, True)) (demo_mm (True, True))) = Returns True
         then [ProcessOrderFill] else []) @ rest \<and>
      list_all is_send sends \<and>
      prefix rest (SetOrderLevels # SendAllOrders # sends) \<and>
      (fst (refresh_all_orders (demo_hooks (False, True)) (demo_mm (True, True))) = Returns () \<longrightarrow>
         rest = SetOrderLevels # SendAllOrders # sends)"
    by blast
  with s d c demo_refresh [of "(False, True)"] show ?thesis by simp
qed

text \<open>
  Claim C5, amended. The implemented methods never remove a key from \<^verbatim>\<open>active_asks\<close> or
  \<^verbatim>\<open>active_bids\<close>: \<^verbatim>\<open>send_all_orders\<close> only stores at keys below the level counts. With
  methods of the child class that leave the two dictionaries alone, every key present before
  \<^verbatim>\<open>refresh_all_orders\<close> is present after it, and every key that is not below the new level
  count of its side keeps its old client order ID. Removing the handle of an order that is
  no longer active is left to the child class.
\<close>
theorem refresh_all_orders_keeps_keys:
  assumes "hooks_keep_active h" and "send_keeps_levels h"
    and "refresh_all_orders h m = (Returns (), es, m')"
  shows "keys (active_asks m) \<subseteq> keys (active_asks m') \<and>
         keys (active_bids m) \<subseteq> keys (active_bids m') \<and>
         (\<not> (0 \<le> k \<and> k < int (length (ask_levels m'))) \<longrightarrow>
            map_of (active_asks m') k = map_of (active_asks m) k) \<and>
         (\<not> (0 \<le> k \<and> k < int (length (bid_levels m'))) \<longrightarrow>
            map_of (active_bids m') k = map_of (active_bids m) k)"
proof -
  from assms(1) have ska: "send_keeps_active h"
    by (simp add: hooks_keep_active_def)
  obtain sy where sy: "lookup_symbol h m = Some sy"
    using assms(3)
    by (cases "lookup_symbol h m")
      (auto simp: refresh_all_orders_def and_then_def enter_def getattr_symbol_def)
  obtain r1 m1 where d: "delete_all_orders h sy True 1 m = (r1, m1)"
    by (cases "delete_all_orders h sy True 1 m") auto
  with assms(3) sy have "r1 = Returns True"
    by (auto simp: refresh_all_orders_def and_then_def enter_def getattr_symbol_def call_def
        raise_def split: outcome.splits if_splits)
  with d have d': "delete_all_orders h sy True 1 m = (Returns True, m1)"
    by simp
  obtain r2 m2 where c: "check_order_fills h m1 = (r2, m2)"
    by (cases "check_order_fills h m1") auto
  note eq = refresh_all_orders_deleted [OF sy d']
  from eq c assms(3) obtain filled where r2: "r2 = Returns filled"
    by (cases r2) auto
  obtain r3 m3 where p: "(if filled then process_order_fill h m2 else (Returns (), m2)) = (r3, m3)"
    by (cases "if filled then process_order_fill h m2 else (Returns (), m2)") auto
  from eq c r2 p assms(3) have r3: "r3 = Returns ()"
    by (cases r3) auto
  obtain r4 m4 where l: "set_order_levels h m3 = (r4, m4)"
    by (cases "set_order_levels h m3") auto
  from eq c r2 p r3 l assms(3) have r4: "r4 = Returns ()"
    by (cases r4) auto
  obtain r5 es5 m5 where sa: "send_all_orders h m4 = (r5, es5, m5)"
    by (cases "send_all_orders h m4") auto
  from eq c r2 p r3 l r4 sa assms(3) have m5: "m5 = m'"
    by auto
  have "active_asks m1 = active_asks m \<and> active_bids m1 = active_bids m"
    using assms(1) d' unfolding hooks_keep_active_def by (metis snd_conv)
  moreover have "active_asks m2 = active_asks m1 \<and> active_bids m2 = active_bids m1"
    using assms(1) c unfolding hooks_keep_active_def by (metis snd_conv)
  moreover have "active_asks m3 = active_asks m2 \<and> active_bids m3 = active_bids m2"
  proof (cases filled)
    case True
    with p have "process_order_fill h m2 = (r3, m3)" by simp
    with assms(1) show ?thesis unfolding hooks_keep_active_def by (metis snd_conv)
  next
    case False
    with p show ?thesis by simp
  qed
  moreover have "active_asks m4 = active_asks m3 \<and> active_bids m4 = active_bids m3"
    using assms(1) l unfolding hooks_keep_active_def by (metis snd_conv)
  ultimately have act: "active_asks m4 = active_asks m" "active_bids m4 = active_bids m"
    by simp_all
  from send_all_orders_keeps [OF ska assms(2) sa, of k] act m5 show ?thesis
    by simp
qed

theorem refresh_all_orders_keeps_keys_witness:
  "hooks_keep_active (demo_hooks (False, True)) \<and>
   send_keeps_levels (demo_hooks (False, True)) \<and>
   refresh_all_orders (demo_hooks (False, True)) demo_sent =
     (Returns (),
      [RefreshAllOrders, DeleteAllOrders ''BTC-USD'' True 1, CheckOrderFills, SetOrderLevels,
       SendAllOrders, SendLimitOrder Ask 0 False],
      demo_refreshed) \<and>
   \<not> (0 \<le> (1::int) \<and> 1 < int (length (ask_levels demo_refreshed))) \<and>
   \<not> (0 \<le> (1::int) \<and> 1 < int (length (bid_levels demo_refreshed))) \<and>
   keys (active_asks demo_sent) \<subseteq> keys (active_asks demo_refreshed) \<and>
   keys (active_bids demo_sent) \<subseteq> keys (active_bids demo_refreshed) \<and>
   map_of (active_asks demo_refreshed) 1 = map_of (active_asks demo_sent) 1 \<and>
   map_of (active_bids demo_refreshed) 1 = map_of (active_bids demo_sent) 1"
proof -
  have l: "\<not> (0 \<le> (1::int) \<and> 1 < int (length (ask_levels demo_refreshed)))"
    "\<not> (0 \<le> (1::int) \<and> 1 < int (length (bid_levels demo_refreshed)))"
    by (simp_all add: demo_refreshed_def)
  from refresh_all_orders_keeps_keys
    [OF demo_hooks_keep_active demo_send_keeps_levels demo_refresh_sent [of "(False, True)"],
      where k = 1]
    l demo_hooks_keep_active demo_send_keeps_levels demo_refresh_sent
  show ?thesis by simp
qed

text \<open>
  The claim as first stated asks that no key above the new level count remains after a bulk
  refresh to fewer levels. In the example two ask levels are sent, then the strategy plans
  one: key 1 still holds the cancelled order's ID after the refresh.
\<close>
theorem refresh_leaves_stale_key:
  "send_all_orders (demo_hooks (False, True)) demo_two_levels =
     (Returns (), [SendAllOrders, SendLimitOrder Ask 0 False, SendLimitOrder Ask 1 False],
      demo_sent) \<and>
   refresh_all_orders (demo_hooks (False, True)) demo_sent =
     (Returns (),
      [RefreshAllOrders, DeleteAllOrders ''BTC-USD'' True 1, CheckOrderFills, SetOrderLevels,
       SendAllOrders, SendLimitOrder Ask 0 False],
      demo_refreshed) \<and>
   length (ask_levels demo_sent) = 2 \<and>
   length (ask_levels demo_refreshed) = 1 \<and>
   1 \<in> keys (active_asks demo_refreshed) \<and>
   map_of (active_asks demo_refreshed) 1 = Some ''x1''"
  by (simp add: demo_send_two_levels demo_refresh_sent)
    (simp add: demo_refreshed_def demo_sent_def demo_two_levels_def keys_def)

subsection \<open>The loop\<close>

text \<open>
  Claim C6. When \<^verbatim>\<open>order_refresh_needed\<close> returns \<^verbatim>\<open>(True, True)\<close>, the pass through the loop
  body is that call followed by \<^verbatim>\<open>refresh_all_orders\<close>; \<^verbatim>\<open>refresh_individual_orders\<close> is not
  called, and a pass that completes leaves both flags false.
\<close>
theorem run_iteration_refresh_all:
  assumes "order_refresh_needed h m = (Returns (True, True), m1)"
    and "run_iteration h m = (r, es, m')"
  shows "\<exists>r1 es1.
           refresh_all_orders h m1 = (r1, es1, m') \<and>
           es = OrderRefreshNeeded # es1 \<and>
           take 2 es = [OrderRefreshNeeded, RefreshAllOrders] \<and>
           RefreshIndividualOrders \<notin> set es \<and>
           (case r1 of Returns u \<Rightarrow> r = Returns (False, False) | Raises e \<Rightarrow> r = Raises e)"
proof -
  obtain r1 es1 m2 where ra: "refresh_all_orders h m1 = (r1, es1, m2)"
    by (cases "refresh_all_orders h m1") auto
  from refresh_all_orders_head [OF ra] obtain rest where
    rest: "es1 = RefreshAllOrders # rest" "RefreshIndividualOrders \<notin> set rest"
    by blast
  from run_iteration_eq [OF assms(1)] assms(2) ra
  have "m' = m2" "es = OrderRefreshNeeded # es1"
    "case r1 of Returns u \<Rightarrow> r = Returns (False, False) | Raises e \<Rightarrow> r = Raises e"
    by (auto split: outcome.splits)
  with ra rest show ?thesis by simp
qed

theorem run_iteration_refresh_all_witness:
  "order_refresh_needed (demo_hooks (True, True)) (demo_mm (True, True)) =
     (Returns (True, True), demo_mm (True, True)) \<and>
   run_iteration (demo_hooks (True, True)) (demo_mm (True, True)) =
     (Returns (False, False),
      [OrderRefreshNeeded, RefreshAllOrders, DeleteAllOrders ''BTC-USD'' True 1, CheckOrderFills,
       ProcessOrderFill, SetOrderLevels, SendAllOrders, SendLimitOrder Ask 0 False],
      (demo_mm (True, True))
        \<lparr>ask_levels := [(0, ''a0'')], bid_levels := [], active_asks := [(0, ''a0'')]\<rparr>) \<and>
   RefreshIndividualOrders \<notin> set
     [OrderRefreshNeeded, RefreshAllOrders, DeleteAllOrders ''BTC-USD'' True 1, CheckOrderFills,
      ProcessOrderFill, SetOrderLevels, SendAllOrders, SendLimitOrder Ask 0 False]"
proof -
  have o: "order_refresh_needed (demo_hooks (True, True)) (demo_mm (True, True)) =
      (Returns (True, True), demo_mm (True, True))"
    by (simp add: demo_hooks_def)
  from o demo_iteration_all run_iteration_refresh_all [OF o demo_iteration_all]
  show ?thesis by simp
qed

text \<open>
  Claim C7. What a pass through the loop body does once \<^verbatim>\<open>order_refresh_needed\<close> has
  returned: with both flags false, the fill check on the instance that call left and, exactly
  when the check reports a fill, \<^verbatim>\<open>process_order_fill\<close> on the instance the check left, and
  nothing else; with a flag set, no fill check at the top but the refresh, whose first event
  follows \<^verbatim>\<open>order_refresh_needed\<close> directly.
\<close>
theorem run_iteration_fill_check:
  assumes "order_refresh_needed h m = (Returns (ri, ra), m1)"
  shows "run_iteration h m =
     (if ra then
        (case refresh_all_orders h m1 of
           (Returns u, es, m2) \<Rightarrow> (Returns (False, False), OrderRefreshNeeded # es, m2)
         | (Raises e, es, m2) \<Rightarrow> (Raises e, OrderRefreshNeeded # es, m2))
      else if ri then
        (case refresh_individual_orders h m1 of
           (Returns u, m2) \<Rightarrow> (Returns (False, False), [OrderRefreshNeeded, RefreshIndividualOrders], m2)
         | (Raises e, m2) \<Rightarrow> (Raises e, [OrderRefreshNeeded, RefreshIndividualOrders], m2))
      else
        (case check_order_fills h m1 of
           (Raises e, m2) \<Rightarrow> (Raises e, [OrderRefreshNeeded, CheckOrderFills], m2)
         | (Returns False, m2) \<Rightarrow> (Returns (False, False), [OrderRefreshNeeded, CheckOrderFills], m2)
         | (Returns True, m2) \<Rightarrow>
             (case process_order_fill h m2 of
                (Returns u, m3) \<Rightarrow>
                  (Returns (False, False), [OrderRefreshNeeded, CheckOrderFills, ProcessOrderFill], m3)
              | (Raises e, m3) \<Rightarrow>
                  (Raises e, [OrderRefreshNeeded, CheckOrderFills, ProcessOrderFill], m3)))) \<and>
     (take 2 (fst (snd (run_iteration h m))) = [OrderRefreshNeeded, CheckOrderFills] \<longleftrightarrow>
        \<not> ri \<and> \<not> ra) \<and>
     (take 3 (fst (snd (run_iteration h m))) =
        [OrderRefreshNeeded, CheckOrderFills, ProcessOrderFill] \<longleftrightarrow>
        \<not> ri \<and> \<not> ra \<and> fst (check_order_fills h m1) = Returns True)"
proof -
  note eq = run_iteration_eq [OF assms]
  obtain r es m' where it: "run_iteration h m = (r, es, m')"
    by (cases "run_iteration h m") auto
  have f: "fst (snd (run_iteration h m)) = es"
    using it by simp
  have "(take 2 es = [OrderRefreshNeeded, CheckOrderFills] \<longleftrightarrow> \<not> ri \<and> \<not> ra) \<and>
        (take 3 es = [OrderRefreshNeeded, CheckOrderFills, ProcessOrderFill] \<longleftrightarrow>
           \<not> ri \<and> \<not> ra \<and> fst (check_order_fills h m1) = Returns True)"
  proof (cases ra)
    case True
    obtain r1 es1 m2 where ra: "refresh_all_orders h m1 = (r1, es1, m2)"
      by (cases "refresh_all_orders h m1") auto
    from refresh_all_orders_head [OF ra] obtain rest where "es1 = RefreshAllOrders # rest"
      by blast
    with eq it True ra have "es = OrderRefreshNeeded # RefreshAllOrders # rest"
      by (auto split: outcome.splits)
    with True show ?thesis by simp
  next
    case False
    note nra = this
    show ?thesis
    proof (cases ri)
      case True
      with eq it nra have "es = [OrderRefreshNeeded, RefreshIndividualOrders]"
        by (auto split: outcome.splits prod.splits)
      with True show ?thesis by simp
    next
      case False
      with eq it nra show ?thesis
        by (auto split: outcome.splits prod.splits bool.splits)
    qed
  qed
  then show ?thesis
    unfolding f by (rule conjI [OF eq])
qed

theorem run_iteration_fill_check_witness:
  "order_refresh_needed (demo_hooks (False, False)) (demo_mm (True, True)) =
     (Returns (False, False), demo_mm (True, True)) \<and>
   check_order_fills (demo_hooks (False, False)) (demo_mm (True, True)) =
     (Returns True, demo_mm (True, True)) \<and>
   run_iteration (demo_hooks (False, False)) (demo_mm (True, True)) =
     (Returns (False, False), [OrderRefreshNeeded, CheckOrderFills, ProcessOrderFill],
      demo_mm (True, True)) \<and>
   take 2 (fst (snd (run_iteration (demo_hooks (False, False)) (demo_mm (True, True))))) =
     [OrderRefreshNeeded, CheckOrderFills] \<and>
   take 3 (fst (snd (run_iteration (demo_hooks (False, False)) (demo_mm (True, True))))) =
     [OrderRefreshNeeded, CheckOrderFills, ProcessOrderFill]"
proof -
  have o: "order_refresh_needed (demo_hooks (False, False)) (demo_mm (True, True)) =
      (Returns (False, False), demo_mm (True, True))"
    by (simp add: demo_hooks_def)
  have c: "check_order_fills (demo_hooks (False, False)) (demo_mm (True, True)) =
      (Returns True, demo_mm (True, True))"
    by (simp add: demo_hooks_def demo_mm_def init_def)
  have p: "process_order_fill (demo_hooks (False, False)) (demo_mm (True, True)) =
      (Returns (), demo_mm (True, True))"
    by (simp add: demo_hooks_def)
  from run_iteration_fill_check [OF o] o c p show ?thesis by simp
qed



end
